theory Spec2Isabelle
  imports Complex_Main
begin

section \<open>Common types\<close>

text \<open>
  Tensors are flat (one-dimensional) sequences of scalars over exact arithmetic.
  Every exception the modelled code can raise is a value of \<open>error\<close>; \<open>SolverError\<close>
  stands for the failures of the eigensolver, and the last two constructors are the
  error kinds the specification names, which no function of the source raises.
\<close>

type_synonym tensor = "real list"

datatype error =
    ValueError | KeyError | IndexError | RuntimeError | StopIteration | ZeroDivisionError
  | SolverError | ConfigurationError | InvalidArgument

definition bind_err :: "error + 'a \<Rightarrow> ('a \<Rightarrow> error + 'b) \<Rightarrow> error + 'b" where
  "bind_err m f = (case m of Inl e \<Rightarrow> Inl e | Inr x \<Rightarrow> f x)"

section \<open>utils/activation.py\<close>

text \<open>
  A Python string is a sequence of Unicode code points. \<open>str.lower\<close> moves the ASCII
  letters A to Z to a to z and leaves every other ASCII character alone; what it does
  to a code point outside ASCII is decided by the runtime's Unicode tables (and, for a
  capital sigma, by its neighbours), which are a parameter \<open>unicode_lower\<close>: from the
  string and a position it gives the code points that replace the one at that position.
  \<open>ascii\<close> writes a literal of the source as code points.
\<close>

type_synonym pystr = "nat list"

definition ascii :: "string \<Rightarrow> pystr" where
  "ascii s = map of_char s"

definition lower_ascii :: "nat \<Rightarrow> nat" where
  "lower_ascii c = (if 65 \<le> c \<and> c \<le> 90 then c + 32 else c)"

definition lower :: "(pystr \<Rightarrow> nat \<Rightarrow> pystr) \<Rightarrow> pystr \<Rightarrow> pystr" where
  "lower unicode_lower s =
     concat (map (\<lambda>i. if s ! i < 128 then [lower_ascii (s ! i)] else unicode_lower s i)
               [0..<length s])"

datatype activation = ReLU | Sigmoid | Tanh | Softmax nat | LeakyReLU real

definition activations :: "(pystr \<times> activation) list" where
  "activations =
     [(ascii ''relu'', ReLU), (ascii ''sigmoid'', Sigmoid), (ascii ''tanh'', Tanh),
      (ascii ''softmax'', Softmax 1), (ascii ''leaky_relu'', LeakyReLU (1 / 100))]"

definition get_activation :: "(pystr \<Rightarrow> nat \<Rightarrow> pystr) \<Rightarrow> pystr \<Rightarrow> error + activation" where
  "get_activation unicode_lower activation_name =
     (let activation_name = lower unicode_lower activation_name in
      case map_of activations activation_name of
        None \<Rightarrow> Inl ValueError
      | Some a \<Rightarrow> Inr a)"

definition activation_exists :: "(pystr \<Rightarrow> nat \<Rightarrow> pystr) \<Rightarrow> pystr \<Rightarrow> bool" where
  "activation_exists unicode_lower activation_name \<longleftrightarrow>
     lower unicode_lower activation_name
       \<in> {ascii ''relu'', ascii ''sigmoid'', ascii ''tanh'', ascii ''softmax'',
          ascii ''leaky_relu''}"

text \<open>
  Two ASCII names that differ at most in the case of their letters, said without
  \<open>lower\<close>: position by position the code points are equal, or one is a capital letter
  and the other the same letter in lower case.
\<close>

definition same_up_to_case :: "pystr \<Rightarrow> pystr \<Rightarrow> bool" where
  "same_up_to_case a b \<longleftrightarrow>
     list_all2 (\<lambda>x y. x < 128 \<and> y < 128
                  \<and> (x = y \<or> (65 \<le> x \<and> x \<le> 90 \<and> y = x + 32)
                           \<or> (65 \<le> y \<and> y \<le> 90 \<and> x = y + 32))) a b"

text \<open>
  A Unicode table with one entry, used as a concrete input: the Kelvin sign (code point
  8490) lowers to the letter k.
\<close>

definition kelvin_lower :: "pystr \<Rightarrow> nat \<Rightarrow> pystr" where
  "kelvin_lower s i = (if s ! i = 8490 then [107] else [s ! i])"

section \<open>utils/initialization.py\<close>

text \<open>
  A layer object: \<open>weight\<close> is \<open>None\<close> when the object has no such attribute, and
  otherwise the shape of the weight tensor with its entries; the bias attribute may be
  missing, present and \<open>None\<close>, or a tensor. The call mutates the layer and may raise:
  the result is the layer as the call leaves it, with the exception if there is one.

  The random draws of the library are a parameter \<open>draw\<close>: from the method name, the
  shape and the current weights it gives the new weights. What the library checks
  before it draws is modelled: the Xavier and Kaiming initialisers compute the fans of
  the tensor, which raises ValueError for fewer than two dimensions; Xavier divides by
  the sum of the fans; Kaiming returns a tensor without elements untouched before it
  looks at the fans.
\<close>

datatype bias_attr = NoBiasAttr | BiasNone | Bias tensor

record layer =
  weight :: "(nat list \<times> tensor) option"
  bias :: bias_attr








definition initialization_exists :: "(pystr \<Rightarrow> nat \<Rightarrow> pystr) \<Rightarrow> pystr \<Rightarrow> bool" where
  "initialization_exists unicode_lower method \<longleftrightarrow>
     lower unicode_lower method
       \<in> {ascii ''uniform'', ascii ''xavier'', ascii ''kaiming'', ascii ''zeros'',
          ascii ''ones'', ascii ''normal''}"



section \<open>analysis/hessian.py: tensor arithmetic\<close>

text \<open>
  Elementwise arithmetic on one-dimensional tensors follows the library's broadcasting:
  equal sizes combine entry by entry, a tensor of size one is stretched to the size of
  the other, and any other pair of sizes raises RuntimeError.
\<close>

definition broadcast2 :: "(real \<Rightarrow> real \<Rightarrow> real) \<Rightarrow> tensor \<Rightarrow> tensor \<Rightarrow> error + tensor" where
  "broadcast2 f a b =
     (if length a = length b then Inr (map2 f a b)
      else if length a = 1 then Inr (map (f (hd a)) b)
      else if length b = 1 then Inr (map (\<lambda>x. f x (hd b)) a)
      else Inl RuntimeError)"

section \<open>analysis/hessian.py: lanczos\<close>







text \<open>
  A solver used as a concrete input. It is exact for operators that are diagonal in the
  standard basis: it reads the diagonal by applying the operator to the unit vectors,
  keeps the \<open>k\<close> entries of largest magnitude, and answers with them in ascending order
  and the matching unit vectors as columns. Like the library it refuses \<open>k = 0\<close> and
  \<open>k \<ge> d\<close>.
\<close>

definition unit_vector :: "nat \<Rightarrow> nat \<Rightarrow> tensor" where
  "unit_vector d i = map (\<lambda>j. if j = i then 1 else 0) [0..<d]"

fun diagonal_of :: "(tensor \<Rightarrow> error + tensor) \<Rightarrow> nat \<Rightarrow> nat list \<Rightarrow> error + tensor" where
  "diagonal_of op d [] = Inr []"
| "diagonal_of op d (i # rest) =
     bind_err (op (unit_vector d i))
       (\<lambda>image. bind_err (diagonal_of op d rest) (\<lambda>entries. Inr (image ! i # entries)))"



section \<open>analysis/hessian.py: compute_trajectory_length\<close>

text \<open>
  The function is modelled for any arithmetic of scalars, so that it reads the same
  over single and double precision numbers and over exact reals. The parameters are
  \<open>norm_diff\<close>, which is \<open>torch.norm(a - b).item()\<close> and may raise when the sizes of
  \<open>a\<close> and \<open>b\<close> do not fit, the addition \<open>add\<close> of the running sum, and the number
  \<open>zero\<close> written \<open>0.0\<close>. The running sum starts from its first element, as the
  library's \<open>cumsum\<close> does.
\<close>

fun distances_from ::
  "('t \<Rightarrow> 't \<Rightarrow> error + 'a) \<Rightarrow> 't list \<Rightarrow> nat list \<Rightarrow> error + 'a list" where
  "distances_from norm_diff param_history [] = Inr []"
| "distances_from norm_diff param_history (i # rest) =
     bind_err (norm_diff (param_history ! i) (param_history ! (i - 1)))
       (\<lambda>dist. bind_err (distances_from norm_diff param_history rest)
          (\<lambda>distances. Inr (dist # distances)))"

fun accumulate :: "('a \<Rightarrow> 'a \<Rightarrow> 'a) \<Rightarrow> 'a \<Rightarrow> 'a list \<Rightarrow> 'a list" where
  "accumulate add acc [] = []"
| "accumulate add acc (x # xs) = add acc x # accumulate add (add acc x) xs"

definition cumsum :: "('a \<Rightarrow> 'a \<Rightarrow> 'a) \<Rightarrow> 'a list \<Rightarrow> 'a list" where
  "cumsum add xs = (case xs of [] \<Rightarrow> [] | x # rest \<Rightarrow> x # accumulate add x rest)"

definition compute_trajectory_length ::
  "('t \<Rightarrow> 't \<Rightarrow> error + 'a) \<Rightarrow> ('a \<Rightarrow> 'a \<Rightarrow> 'a) \<Rightarrow> 'a \<Rightarrow> 't list \<Rightarrow> error + 'a list" where
  "compute_trajectory_length norm_diff add zero param_history =
     (if length param_history \<le> 1 then Inr (replicate (length param_history) zero)
      else
        bind_err (distances_from norm_diff param_history [1..<length param_history])
          (\<lambda>distances.
             let cum_distances = zero # cumsum add distances in
             if length cum_distances > length param_history
               then Inr (take (length param_history) cum_distances)
             else if length cum_distances < length param_history
               then Inr (cum_distances
                          @ replicate (length param_history - length cum_distances)
                              (last cum_distances))
             else Inr cum_distances))"

text \<open>
  The exact Euclidean distance of two tensors, which \<open>torch.norm(a - b)\<close> computes up
  to rounding, as an instance of \<open>norm_diff\<close> over the reals.
\<close>

definition euclidean_norm :: "tensor \<Rightarrow> real" where
  "euclidean_norm t = sqrt (sum_list (map (\<lambda>x. x * x) t))"

definition exact_norm_diff :: "tensor \<Rightarrow> tensor \<Rightarrow> error + real" where
  "exact_norm_diff a b = bind_err (broadcast2 (-) a b) (\<lambda>diff. Inr (euclidean_norm diff))"

section \<open>analysis/eigenvector_analysis.py: create_parameter_mapping\<close>

text \<open>
  A model is what \<open>named_parameters\<close> enumerates: the parameter names with the shapes
  of their tensors, in enumeration order. The mapping is a dictionary from flat index
  to an entry with the five fields of the source.
\<close>

type_synonym model = "(string \<times> nat list) list"

record entry =
  pm_name :: string
  pm_layer :: string
  pm_coordinates :: "nat list"
  pm_shape :: "nat list"
  pm_type :: string

definition numel :: "nat list \<Rightarrow> nat" where
  "numel shape = prod_list shape"

text \<open>
  \<open>unravel_index\<close> in row-major order: the last axis varies fastest. The library
  raises ValueError for an index outside the shape.
\<close>

fun unravel_rev :: "nat \<Rightarrow> nat list \<Rightarrow> nat list" where
  "unravel_rev i [] = []"
| "unravel_rev i (d # ds) = (i mod d) # unravel_rev (i div d) ds"

definition unravel_index :: "nat \<Rightarrow> nat list \<Rightarrow> error + nat list" where
  "unravel_index i shape =
     (if i < prod_list shape then Inr (rev (unravel_rev i (rev shape))) else Inl ValueError)"

text \<open>\<open>str.split('.')\<close>, \<open>'.' in name\<close> and \<open>str.endswith\<close>.\<close>

fun split_dot :: "string \<Rightarrow> string list" where
  "split_dot [] = [[]]"
| "split_dot (c # cs) =
     (if c = CHR ''.'' then [] # split_dot cs
      else (case split_dot cs of [] \<Rightarrow> [[c]] | p # ps \<Rightarrow> (c # p) # ps))"

definition endswith :: "string \<Rightarrow> string \<Rightarrow> bool" where
  "endswith s suffix \<longleftrightarrow>
     length suffix \<le> length s \<and> drop (length s - length suffix) s = suffix"

definition layer_of :: "string \<Rightarrow> string" where
  "layer_of name = (if CHR ''.'' \<in> set name then hd (split_dot name) else name)"

definition type_of :: "string \<Rightarrow> string" where
  "type_of name = (if endswith name ''bias'' then ''bias'' else ''weight'')"

definition make_entry :: "string \<Rightarrow> nat list \<Rightarrow> nat list \<Rightarrow> entry" where
  "make_entry name shape coord =
     \<lparr>pm_name = name, pm_layer = layer_of name, pm_coordinates = coord,
      pm_shape = shape, pm_type = type_of name\<rparr>"

text \<open>The inner loop over \<open>range(param_size)\<close> and the outer loop over the parameters.\<close>

fun fill_param ::
  "string \<Rightarrow> nat list \<Rightarrow> nat \<Rightarrow> nat list \<Rightarrow> (nat \<rightharpoonup> entry) \<Rightarrow> error + (nat \<rightharpoonup> entry)" where
  "fill_param name shape flat_idx [] mapping = Inr mapping"
| "fill_param name shape flat_idx (i # rest) mapping =
     bind_err (unravel_index i shape)
       (\<lambda>coord. fill_param name shape flat_idx rest
                  (mapping(flat_idx + i \<mapsto> make_entry name shape coord)))"

fun mapping_loop :: "model \<Rightarrow> nat \<Rightarrow> (nat \<rightharpoonup> entry) \<Rightarrow> error + (nat \<rightharpoonup> entry)" where
  "mapping_loop [] flat_idx mapping = Inr mapping"
| "mapping_loop ((name, shape) # rest) flat_idx mapping =
     (let param_size = numel shape in
      bind_err (fill_param name shape flat_idx [0..<param_size] mapping)
        (\<lambda>mapping. mapping_loop rest (flat_idx + param_size) mapping))"

definition create_parameter_mapping :: "model \<Rightarrow> error + (nat \<rightharpoonup> entry)" where
  "create_parameter_mapping model = mapping_loop model 0 Map.empty"

text \<open>
  Vocabulary for the statements: the total parameter count, the coordinates that lie
  inside a shape, the (tensor, coordinate) pairs of a model, and a direct description
  of the entry at a flat index.
\<close>

definition total_params :: "model \<Rightarrow> nat" where
  "total_params model = sum_list (map (\<lambda>(name, shape). numel shape) model)"

definition slots :: "model \<Rightarrow> (string \<times> nat list) set" where
  "slots model = {(name, coord). \<exists>shape. (name, shape) \<in> set model \<and> list_all2 (<) coord shape}"

definition coords :: "nat list \<Rightarrow> nat \<Rightarrow> nat list" where
  "coords shape i = rev (unravel_rev i (rev shape))"

fun entry_at :: "model \<Rightarrow> nat \<Rightarrow> nat \<Rightarrow> entry option" where
  "entry_at [] flat_idx k = None"
| "entry_at ((name, shape) # rest) flat_idx k =
     (if flat_idx \<le> k \<and> k < flat_idx + numel shape
      then Some (make_entry name shape (coords shape (k - flat_idx)))
      else entry_at rest (flat_idx + numel shape) k)"

section \<open>analysis/eigenvector_analysis.py: analyze_eigenvector\<close>

text \<open>
  The library's \<open>argsort\<close> is a parameter: it returns the indices of its argument in
  an order that sorts the values ascending, and the library leaves the order among
  equal values open. \<open>stable_argsort\<close> is the instance that keeps equal values in
  index order.
\<close>

definition argsort_contract :: "(real list \<Rightarrow> nat list) \<Rightarrow> bool" where
  "argsort_contract argsort \<longleftrightarrow>
     (\<forall>xs. distinct (argsort xs) \<and> set (argsort xs) = {0..<length xs}
           \<and> sorted (map (\<lambda>i. xs ! i) (argsort xs)))"

definition stable_argsort :: "real list \<Rightarrow> nat list" where
  "stable_argsort xs = sort_key (\<lambda>i. xs ! i) [0..<length xs]"

text \<open>The slice \<open>a[start:]\<close>: a negative start counts from the end and is clamped at 0.\<close>

definition slice_from :: "int \<Rightarrow> 'a list \<Rightarrow> 'a list" where
  "slice_from start xs =
     (if start < 0 then drop (nat (max 0 (int (length xs) + start))) xs
      else drop (nat start) xs)"

record contributor =
  c_index :: nat
  c_param_name :: string
  c_layer :: string
  c_coordinates :: "nat list"
  c_contribution :: real
  c_abs_contribution :: real
  c_param_type :: string

datatype analysis =
    LayerContributions "string \<rightharpoonup> real"
  | TopContributors "contributor list"

definition make_contributor :: "nat \<Rightarrow> entry \<Rightarrow> real \<Rightarrow> contributor" where
  "make_contributor idx param_info contribution =
     \<lparr>c_index = idx, c_param_name = pm_name param_info, c_layer = pm_layer param_info,
      c_coordinates = pm_coordinates param_info, c_contribution = contribution,
      c_abs_contribution = \<bar>contribution\<bar>, c_param_type = pm_type param_info\<rparr>"

fun layer_loop ::
  "(nat \<rightharpoonup> entry) \<Rightarrow> (nat \<times> real) list \<Rightarrow> (string \<rightharpoonup> real) \<Rightarrow> error + (string \<rightharpoonup> real)" where
  "layer_loop param_mapping [] layer_contributions = Inr layer_contributions"
| "layer_loop param_mapping ((idx, val) # rest) layer_contributions =
     (case param_mapping idx of
        None \<Rightarrow> Inl KeyError
      | Some param_info \<Rightarrow>
          (let layer = pm_layer param_info;
               layer_contributions =
                 (if layer \<notin> dom layer_contributions then layer_contributions(layer \<mapsto> 0)
                  else layer_contributions)
           in layer_loop param_mapping rest
                (layer_contributions(layer \<mapsto> the (layer_contributions layer) + val))))"

fun top_loop :: "tensor \<Rightarrow> (nat \<rightharpoonup> entry) \<Rightarrow> nat list \<Rightarrow> error + contributor list" where
  "top_loop eigenvector param_mapping [] = Inr []"
| "top_loop eigenvector param_mapping (idx # rest) =
     (case param_mapping idx of
        None \<Rightarrow> Inl KeyError
      | Some param_info \<Rightarrow>
          if idx < length eigenvector then
            bind_err (top_loop eigenvector param_mapping rest)
              (\<lambda>top_contributors.
                 Inr (make_contributor idx param_info (eigenvector ! idx) # top_contributors))
          else Inl IndexError)"

definition top_indices :: "(real list \<Rightarrow> nat list) \<Rightarrow> tensor \<Rightarrow> int \<Rightarrow> nat list" where
  "top_indices argsort eigenvector top_k =
     rev (slice_from (- top_k) (argsort (map abs eigenvector)))"

definition analyze_eigenvector ::
  "(real list \<Rightarrow> nat list) \<Rightarrow> tensor \<Rightarrow> (nat \<rightharpoonup> entry) \<Rightarrow> int \<Rightarrow> bool \<Rightarrow> error + analysis" where
  "analyze_eigenvector argsort eigenvector param_mapping top_k by_layer =
     (let abs_contrib = map abs eigenvector in
      if by_layer then
        bind_err (layer_loop param_mapping (zip [0..<length abs_contrib] abs_contrib) Map.empty)
          (\<lambda>layer_contributions. Inr (LayerContributions layer_contributions))
      else
        bind_err (top_loop eigenvector param_mapping (top_indices argsort eigenvector top_k))
          (\<lambda>top_contributors. Inr (TopContributors top_contributors)))"

text \<open>
  The call sequence of \<open>analyze_principal_parameters\<close> for one eigenvector: build the
  mapping of the model, then analyse the eigenvector against it.
\<close>

definition analyze_model ::
  "(real list \<Rightarrow> nat list) \<Rightarrow> model \<Rightarrow> tensor \<Rightarrow> int \<Rightarrow> bool \<Rightarrow> error + analysis" where
  "analyze_model argsort model eigenvector top_k by_layer =
     bind_err (create_parameter_mapping model)
       (\<lambda>param_mapping. analyze_eigenvector argsort eigenvector param_mapping top_k by_layer)"


section \<open>analysis/hessian.py: compute_hvp\<close>

text \<open>
  Double backpropagation is a parameter. An objective stands for the model together
  with the loss function at the current, fixed parameters: \<open>num_params\<close> is the number
  of scalar parameters, and for a batch of samples \<open>hess_vec batch w\<close> is the product
  of the Hessian of the loss of that batch (with respect to the parameters) with the
  vector \<open>w\<close>. Differentiation is linear, so for the loss scaled by a constant the two
  gradient passes give that product scaled by the same constant.
\<close>

record 'x objective =
  num_params :: nat
  hess_vec :: "'x list \<Rightarrow> tensor \<Rightarrow> tensor"

text \<open>
  \<open>torch.sum(flat_grad * vector)\<close> is a linear form in the gradient; under the
  broadcasting of the product its coefficient vector is the probe itself, the probe's
  one entry repeated, or (one parameter only) the sum of the probe's entries.
\<close>

definition dot_direction :: "nat \<Rightarrow> tensor \<Rightarrow> error + tensor" where
  "dot_direction n vector =
     (if length vector = n then Inr vector
      else if length vector = 1 then Inr (replicate n (hd vector))
      else if n = 1 then Inr [sum_list vector]
      else Inl RuntimeError)"

text \<open>One pass of the two gradient computations on a batch.\<close>

definition batch_hvp :: "'x objective \<Rightarrow> nat \<Rightarrow> 'x list \<Rightarrow> tensor \<Rightarrow> error + tensor" where
  "batch_hvp obj len_dataset batch vector =
     (let batch_size = length batch in
      bind_err (dot_direction (num_params obj) vector)
        (\<lambda>w. Inr (map (\<lambda>h. h * real batch_size / real len_dataset) (hess_vec obj batch w))))"

text \<open>The batches of an unshuffled loader that keeps the last, shorter batch.\<close>

function batches :: "nat \<Rightarrow> 'x list \<Rightarrow> 'x list list" where
  "batches batch_size xs =
     (if batch_size = 0 \<or> xs = [] then []
      else take batch_size xs # batches batch_size (drop batch_size xs))"
  by pat_completeness auto
termination
  by (relation "measure (\<lambda>(batch_size, xs). length xs)") auto

declare batches.simps [simp del]

text \<open>\<open>flat_hvp += t\<close>: the right-hand side must have the size of the left or size one.\<close>

definition inplace_add :: "tensor \<Rightarrow> tensor \<Rightarrow> error + tensor" where
  "inplace_add a b =
     (if length a = length b then Inr (map2 (+) a b)
      else if length b = 1 then Inr (map (\<lambda>x. x + hd b) a)
      else Inl RuntimeError)"

fun hvp_loop ::
  "'x objective \<Rightarrow> nat \<Rightarrow> tensor \<Rightarrow> 'x list list \<Rightarrow> tensor \<Rightarrow> error + tensor" where
  "hvp_loop obj len_dataset vector [] flat_hvp = Inr flat_hvp"
| "hvp_loop obj len_dataset vector (batch # rest) flat_hvp =
     bind_err (batch_hvp obj len_dataset batch vector)
       (\<lambda>hvp_batch. bind_err (inplace_add flat_hvp hvp_batch)
          (\<lambda>flat_hvp. hvp_loop obj len_dataset vector rest flat_hvp))"

text \<open>
  \<open>compute_hvp\<close>. A model without parameters stops at \<open>next(model.parameters())\<close>;
  a loader with a batch size that is not positive raises ValueError (the single pass on
  an empty dataset asks for batch size 0). Where an entry of
  \<open>P\<close> is not positive the library computes nan or an infinity and raises nothing;
  the model, over the reals, raises nothing either, and its values are meant for
  positive \<open>P\<close> only.
\<close>

definition compute_hvp ::
  "'x objective \<Rightarrow> 'x list \<Rightarrow> tensor \<Rightarrow> int option \<Rightarrow> tensor option \<Rightarrow> error + tensor" where
  "compute_hvp obj dataset vector physical_batch_size P =
     (if num_params obj = 0 then Inl StopIteration
      else
        bind_err (case P of None \<Rightarrow> Inr vector
                  | Some p \<Rightarrow> broadcast2 (/) vector (map sqrt p))
          (\<lambda>vector.
             bind_err
               (let whole =
                      (if dataset = [] then Inl ValueError
                       else batch_hvp obj (length dataset) dataset vector)
                in case physical_batch_size of
                     None \<Rightarrow> whole
                   | Some b \<Rightarrow>
                       if b \<ge> int (length dataset) then whole
                       else if b \<le> 0 then Inl ValueError
                       else hvp_loop obj (length dataset) vector
                              (batches (nat b) dataset) (replicate (num_params obj) 0))
               (\<lambda>flat_hvp.
                  case P of None \<Rightarrow> Inr flat_hvp
                  | Some p \<Rightarrow> broadcast2 (/) flat_hvp (map sqrt p))))"

text \<open>
  Vocabulary for the statements. An objective is well formed when its Hessian products
  have one entry per parameter; its loss is a mean over the batch when the Hessian
  product of a batch is the average of the Hessian products of its samples.
\<close>

definition vadd :: "tensor \<Rightarrow> tensor \<Rightarrow> tensor" where
  "vadd a b = map2 (+) a b"

definition vscale :: "real \<Rightarrow> tensor \<Rightarrow> tensor" where
  "vscale c a = map (\<lambda>x. c * x) a"

definition vsum :: "nat \<Rightarrow> tensor list \<Rightarrow> tensor" where
  "vsum n vs = foldr vadd vs (replicate n 0)"

definition well_formed :: "'x objective \<Rightarrow> bool" where
  "well_formed obj \<longleftrightarrow>
     (\<forall>batch w. length w = num_params obj \<longrightarrow> length (hess_vec obj batch w) = num_params obj)"

definition mean_reduction :: "'x objective \<Rightarrow> bool" where
  "mean_reduction obj \<longleftrightarrow>
     (\<forall>batch w. length w = num_params obj \<longrightarrow> batch \<noteq> [] \<longrightarrow>
        hess_vec obj batch w =
          vscale (1 / real (length batch))
            (vsum (num_params obj) (map (\<lambda>s. hess_vec obj [s] w) batch)))"

text \<open>
  Two objectives with one parameter \<open>t\<close>, used as concrete inputs. A sample is a real
  number \<open>x\<close> with loss \<open>x * t\<^sup>2 / 2\<close>, whose second derivative is \<open>x\<close>; the batch loss is
  the mean of the sample losses in the first and their sum in the second.
\<close>

definition mean_quadratic :: "real objective" where
  "mean_quadratic =
     \<lparr>num_params = 1,
      hess_vec = (\<lambda>batch w. map (\<lambda>y. sum_list batch / real (length batch) * y) w)\<rparr>"

definition sum_quadratic :: "real objective" where
  "sum_quadratic =
     \<lparr>num_params = 1, hess_vec = (\<lambda>batch w. map (\<lambda>y. sum_list batch * y) w)\<rparr>"

section \<open>Properties of the utilities\<close>

lemma ascii_eq_iff [simp]: "ascii a = ascii b \<longleftrightarrow> a = b"
proof -
  have "inj (of_char :: char \<Rightarrow> nat)"
    by (simp add: inj_on_def)
  then show ?thesis
    by (simp add: ascii_def inj_map_eq_map)
qed

lemma map_of_activations:
  "map_of activations s =
     (if s = ascii ''relu'' then Some ReLU
      else if s = ascii ''sigmoid'' then Some Sigmoid
      else if s = ascii ''tanh'' then Some Tanh
      else if s = ascii ''softmax'' then Some (Softmax 1)
      else if s = ascii ''leaky_relu'' then Some (LeakyReLU (1 / 100))
      else None)"
  by (simp add: activations_def)

lemma lower_of_ascii:
  assumes "\<forall>c \<in> set s. c < 128"
  shows "lower unicode_lower s = map lower_ascii s"
proof -
  have "map (\<lambda>i. if s ! i < 128 then [lower_ascii (s ! i)] else unicode_lower s i) [0..<length s]
      = map (\<lambda>i. [lower_ascii (s ! i)]) [0..<length s]"
    using assms by (intro map_cong) auto
  also have "\<dots> = map (\<lambda>c. [lower_ascii c]) (map (\<lambda>i. s ! i) [0..<length s])"
    by (simp add: comp_def)
  also have "\<dots> = map (\<lambda>c. [lower_ascii c]) s"
    by (simp only: map_nth)
  finally show ?thesis
    by (simp add: lower_def)
qed

lemma same_up_to_case_ascii:
  "same_up_to_case a b \<Longrightarrow> (\<forall>c \<in> set a. c < 128) \<and> (\<forall>c \<in> set b. c < 128)"
  unfolding same_up_to_case_def
  by (induction a b rule: list_all2_induct) auto

lemma same_up_to_case_lower_ascii:
  "same_up_to_case a b \<Longrightarrow> map lower_ascii a = map lower_ascii b"
  unfolding same_up_to_case_def
  by (induction a b rule: list_all2_induct) (auto simp: lower_ascii_def)

lemma same_up_to_case_lower:
  assumes "same_up_to_case a b"
  shows "lower unicode_lower a = lower unicode_lower b"
  using same_up_to_case_ascii [OF assms] same_up_to_case_lower_ascii [OF assms]
  by (simp add: lower_of_ascii)

text \<open>
  C10. Activation lookup is case-insensitive. \<open>get_activation name\<close> is a function of
  the lowercased name alone; it returns the module registered under the lowercased name
  when that is one of relu, sigmoid, tanh, softmax, leaky_relu, and it raises ValueError
  exactly when the lowercased name is none of these five. Lowercasing folds case: on an
  ASCII name it maps each capital letter to its small letter and changes nothing else,
  so two ASCII names that differ only in the case of letters get the same answer.
\<close>

theorem get_activation_case_insensitive:
  "get_activation unicode_lower name =
     (if lower unicode_lower name = ascii ''relu'' then Inr ReLU
      else if lower unicode_lower name = ascii ''sigmoid'' then Inr Sigmoid
      else if lower unicode_lower name = ascii ''tanh'' then Inr Tanh
      else if lower unicode_lower name = ascii ''softmax'' then Inr (Softmax 1)
      else if lower unicode_lower name = ascii ''leaky_relu'' then Inr (LeakyReLU (1 / 100))
      else Inl ValueError)
   \<and> (get_activation unicode_lower name = Inl ValueError \<longleftrightarrow>
        lower unicode_lower name
          \<notin> {ascii ''relu'', ascii ''sigmoid'', ascii ''tanh'', ascii ''softmax'',
             ascii ''leaky_relu''})
   \<and> (\<forall>e. get_activation unicode_lower name = Inl e \<longrightarrow> e = ValueError)
   \<and> (\<forall>other. lower unicode_lower other = lower unicode_lower name \<longrightarrow>
         get_activation unicode_lower other = get_activation unicode_lower name)
   \<and> (\<forall>other. same_up_to_case other name \<longrightarrow>
         get_activation unicode_lower other = get_activation unicode_lower name)
   \<and> ((\<forall>c \<in> set name. c < 128) \<longrightarrow>
         lower unicode_lower name
           = map (\<lambda>c. if 65 \<le> c \<and> c \<le> 90 then c + 32 else c) name)"
proof -
  have "get_activation unicode_lower other = get_activation unicode_lower name"
    if "same_up_to_case other name" for other
    using same_up_to_case_lower [OF that, of unicode_lower] by (simp add: get_activation_def)
  moreover have "(\<forall>c \<in> set name. c < 128) \<longrightarrow>
         lower unicode_lower name
           = map (\<lambda>c. if 65 \<le> c \<and> c \<le> 90 then c + 32 else c) name"
    using lower_of_ascii [of name unicode_lower] by (simp add: lower_ascii_def [abs_def])
  ultimately show ?thesis
    by (simp add: get_activation_def map_of_activations)
qed

lemma same_up_to_case_RELU: "same_up_to_case (ascii ''RELU'') (ascii ''relu'')"
  by (simp add: same_up_to_case_def ascii_def)

lemma lower_kelvin:
  "lower kelvin_lower [108, 101, 97, 8490, 121, 95, 114, 101, 108, 117] = ascii ''leaky_relu''"
  by (simp add: lower_def kelvin_lower_def ascii_def lower_ascii_def
      upt_rec [of 0] upt_rec [of 1] upt_rec [of 2] upt_rec [of 3] upt_rec [of 4]
      upt_rec [of 5] upt_rec [of 6] upt_rec [of 7] upt_rec [of 8] upt_rec [of 9]
      upt_rec [of 10])

theorem get_activation_case_insensitive_witness:
  "get_activation kelvin_lower (ascii ''ReLU'') = Inr ReLU
   \<and> get_activation kelvin_lower (ascii ''RELU'') = get_activation kelvin_lower (ascii ''relu'')
   \<and> get_activation kelvin_lower (ascii ''Sigmoid'') = Inr Sigmoid
   \<and> get_activation kelvin_lower (ascii ''TANH'') = Inr Tanh
   \<and> get_activation kelvin_lower (ascii ''gelu'') = Inl ValueError
   \<and> get_activation kelvin_lower [108, 101, 97, 8490, 121, 95, 114, 101, 108, 117]
       = Inr (LeakyReLU (1 / 100))"
proof -
  have l: "lower kelvin_lower (ascii ''ReLU'') = ascii ''relu''"
    "lower kelvin_lower (ascii ''Sigmoid'') = ascii ''sigmoid''"
    "lower kelvin_lower (ascii ''TANH'') = ascii ''tanh''"
    "lower kelvin_lower (ascii ''gelu'') = ascii ''gelu''"
    by (simp_all add: lower_of_ascii ascii_def lower_ascii_def)
  note t = get_activation_case_insensitive [of kelvin_lower]
  have "get_activation kelvin_lower (ascii ''ReLU'') = Inr ReLU"
    using t [of "ascii ''ReLU''"] by (simp add: l)
  moreover have "get_activation kelvin_lower (ascii ''RELU'')
      = get_activation kelvin_lower (ascii ''relu'')"
    using t [of "ascii ''relu''"] same_up_to_case_RELU by blast
  moreover have "get_activation kelvin_lower (ascii ''Sigmoid'') = Inr Sigmoid"
    using t [of "ascii ''Sigmoid''"] by (simp add: l)
  moreover have "get_activation kelvin_lower (ascii ''TANH'') = Inr Tanh"
    using t [of "ascii ''TANH''"] by (simp add: l)
  moreover have "get_activation kelvin_lower (ascii ''gelu'') = Inl ValueError"
    using t [of "ascii ''gelu''"] by (simp add: l)
  moreover have "get_activation kelvin_lower [108, 101, 97, 8490, 121, 95, 114, 101, 108, 117]
       = Inr (LeakyReLU (1 / 100))"
    using t [of "[108, 101, 97, 8490, 121, 95, 114, 101, 108, 117]"]
    by (simp add: lower_kelvin)
  ultimately show ?thesis by simp
qed









section \<open>Properties of lanczos\<close>



lemma length_diagonal_of: "diagonal_of op d idx = Inr entries \<Longrightarrow> length entries = length idx"
  by (induction idx arbitrary: entries) (auto simp: bind_err_def split: sum.splits)







section \<open>Properties of compute_trajectory_length\<close>

lemma distances_from_defined:
  assumes "\<forall>i \<in> set idx. norm_diff (h ! i) (h ! (i - 1)) = Inr (d i)"
  shows "distances_from norm_diff h idx = Inr (map d idx)"
  using assms by (induction idx) (simp_all add: bind_err_def)

lemma length_accumulate: "length (accumulate add a xs) = length xs"
  by (induction xs arbitrary: a) auto

lemma accumulate_step:
  "i < length xs \<Longrightarrow>
     (a # accumulate add a xs) ! Suc i = add ((a # accumulate add a xs) ! i) (xs ! i)"
proof (induction xs arbitrary: a i)
  case Nil
  then show ?case by simp
next
  case (Cons x xs)
  show ?case
  proof (cases i)
    case 0
    then show ?thesis by simp
  next
    case (Suc j)
    then have "j < length xs" using Cons.prems by simp
    from Cons.IH [OF this, of "add a x"] Suc show ?thesis by simp
  qed
qed

lemma length_cumsum: "length (cumsum add xs) = length xs"
  by (cases xs) (simp_all add: cumsum_def length_accumulate)

lemma cumsum_step:
  assumes "add zero (xs ! 0) = xs ! 0" and "i < length xs"
  shows "(zero # cumsum add xs) ! Suc i = add ((zero # cumsum add xs) ! i) (xs ! i)"
proof (cases xs)
  case Nil
  with assms(2) show ?thesis by simp
next
  case (Cons x rest)
  show ?thesis
  proof (cases i)
    case 0
    with assms(1) Cons show ?thesis by (simp add: cumsum_def)
  next
    case (Suc j)
    then have "j < length rest" using assms(2) Cons by simp
    from accumulate_step [OF this, of x add] Suc Cons show ?thesis
      by (simp add: cumsum_def)
  qed
qed

lemma trajectory_recurrence:
  assumes "param_history \<noteq> []"
    and "\<forall>i. 0 < i \<and> i < length param_history \<longrightarrow>
           norm_diff (param_history ! i) (param_history ! (i - 1)) = Inr (d i)"
    and "\<forall>i. add zero (d i) = d i"
  shows "\<exists>r. compute_trajectory_length norm_diff add zero param_history = Inr r
           \<and> length r = length param_history
           \<and> r ! 0 = zero
           \<and> (\<forall>i. 0 < i \<and> i < length param_history \<longrightarrow> r ! i = add (r ! (i - 1)) (d i))
           \<and> (length param_history = 1 \<longrightarrow> r = [zero])"
proof (cases "length param_history \<le> 1")
  case True
  with assms(1) have "length param_history = 1"
    by (cases param_history) auto
  then show ?thesis
    by (simp add: compute_trajectory_length_def)
next
  case False
  let ?h = param_history
  let ?ds = "map d [1..<length ?h]"
  let ?r = "zero # cumsum add ?ds"
  have dd: "distances_from norm_diff ?h [1..<length ?h] = Inr ?ds"
    using assms(2) by (intro distances_from_defined) simp
  have len: "length ?r = length ?h"
    using False by (simp add: length_cumsum)
  have res: "compute_trajectory_length norm_diff add zero ?h = Inr ?r"
    using False len dd by (simp add: compute_trajectory_length_def bind_err_def Let_def)
  have first: "add zero (?ds ! 0) = ?ds ! 0"
    using False assms(3) by (simp add: nth_map_upt)
  have step: "?r ! i = add (?r ! (i - 1)) (d i)" if "0 < i" "i < length ?h" for i
  proof -
    from that(1) obtain k where k: "i = Suc k" by (cases i) auto
    have kl: "k < length ?ds" using that(2) k by simp
    have "?r ! Suc k = add (?r ! k) (?ds ! k)"
      by (rule cumsum_step [of add zero ?ds k, OF first kl])
    moreover have "?ds ! k = d i"
      using kl k by (simp add: nth_map_upt)
    ultimately show ?thesis
      using k by simp
  qed
  show ?thesis
    using res len step False by (intro exI [of _ ?r]) simp
qed

text \<open>
  C5. For a non-empty history in which the norm of the difference of each snapshot and
  its predecessor can be taken (the snapshots of one model have one size), the result
  has one entry per snapshot, entry 0 is \<open>0.0\<close>, and entry \<open>i\<close> is entry \<open>i - 1\<close> plus
  the norm of the difference of snapshots \<open>i\<close> and \<open>i - 1\<close>; a single snapshot gives
  \<open>[0.0]\<close>. The sum is the running sum's own addition and \<open>d i\<close> the value the norm
  returns, in whatever arithmetic; adding a distance to \<open>0.0\<close> returns that distance.
\<close>

theorem compute_trajectory_length_cumulative:
  assumes "param_history \<noteq> []"
    and "\<forall>i. 0 < i \<and> i < length param_history \<longrightarrow>
           norm_diff (param_history ! i) (param_history ! (i - 1)) = Inr (d i)"
    and "\<forall>i. add zero (d i) = d i"
  shows "\<exists>r. compute_trajectory_length norm_diff add zero param_history = Inr r
           \<and> length r = length param_history
           \<and> r ! 0 = zero
           \<and> (\<forall>i. 0 < i \<and> i < length param_history \<longrightarrow> r ! i = add (r ! (i - 1)) (d i))
           \<and> (length param_history = 1 \<longrightarrow> r = [zero])"
  using assms by (rule trajectory_recurrence)

lemma exact_norm_diff_same_size:
  assumes "length a = n" and "length b = n"
  shows "exact_norm_diff a b = Inr (sqrt (\<Sum>j<n. (a ! j - b ! j)\<^sup>2))"
proof -
  have "sum_list (map (\<lambda>x. x * x) (map2 (-) a b))
          = (\<Sum>j = 0..<n. (a ! j - b ! j) * (a ! j - b ! j))"
    using assms by (simp add: sum_list_sum_nth)
  then show ?thesis
    using assms
    by (simp add: exact_norm_diff_def broadcast2_def bind_err_def euclidean_norm_def
        power2_eq_square atLeast0LessThan)
qed

lemma compute_trajectory_length_exact:
  assumes "param_history \<noteq> []" and "\<forall>s \<in> set param_history. length s = n"
  shows "\<exists>r. compute_trajectory_length exact_norm_diff (+) 0 param_history = Inr r
           \<and> length r = length param_history
           \<and> r ! 0 = 0
           \<and> (\<forall>i. 0 < i \<and> i < length param_history \<longrightarrow>
                  r ! i = r ! (i - 1)
                    + sqrt (\<Sum>j<n. (param_history ! i ! j - param_history ! (i - 1) ! j)\<^sup>2))
           \<and> (length param_history = 1 \<longrightarrow> r = [0])"
proof -
  let ?d = "\<lambda>i. sqrt (\<Sum>j<n. (param_history ! i ! j - param_history ! (i - 1) ! j)\<^sup>2)"
  have "\<forall>i. 0 < i \<and> i < length param_history \<longrightarrow>
           exact_norm_diff (param_history ! i) (param_history ! (i - 1)) = Inr (?d i)"
    using assms(2) by (auto intro!: exact_norm_diff_same_size)
  moreover have "\<forall>i. 0 + ?d i = ?d i"
    by simp
  ultimately show ?thesis
    using trajectory_recurrence [OF assms(1), of exact_norm_diff ?d "(+)" 0] by simp
qed

theorem compute_trajectory_length_cumulative_witness:
  "compute_trajectory_length exact_norm_diff (+) 0 [[0, 0], [3, 4], [3, 16]] = Inr [0, 5, 17]
   \<and> compute_trajectory_length exact_norm_diff (+) 0 [[5, 7]] = Inr [0]"
proof -
  let ?h = "[[0, 0], [3, 4], [3, 16 :: real]]"
  let ?d = "\<lambda>i :: nat. if i = 1 then 5 else (12 :: real)"
  have n1: "exact_norm_diff [3, 4] [0, 0] = Inr 5"
  proof -
    have "sqrt (25 :: real) = 5" using real_sqrt_abs [of 5] by simp
    then show ?thesis
      by (simp add: exact_norm_diff_def broadcast2_def bind_err_def euclidean_norm_def)
  qed
  have n2: "exact_norm_diff [3, 16] [3, 4] = Inr 12"
  proof -
    have "sqrt (144 :: real) = 12" using real_sqrt_abs [of 12] by simp
    then show ?thesis
      by (simp add: exact_norm_diff_def broadcast2_def bind_err_def euclidean_norm_def)
  qed
  have h: "\<forall>i. 0 < i \<and> i < length ?h \<longrightarrow> exact_norm_diff (?h ! i) (?h ! (i - 1)) = Inr (?d i)"
  proof (intro allI impI)
    fix i :: nat
    assume "0 < i \<and> i < length ?h"
    then have "i = 1 \<or> i = 2" by auto
    then show "exact_norm_diff (?h ! i) (?h ! (i - 1)) = Inr (?d i)"
      using n1 n2 by auto
  qed
  have z: "\<forall>i. 0 + ?d i = ?d i" by simp
  from compute_trajectory_length_cumulative [of ?h exact_norm_diff ?d "(+)" 0, OF _ h z]
  obtain r where r: "compute_trajectory_length exact_norm_diff (+) 0 ?h = Inr r"
    "length r = 3" "r ! 0 = 0" "r ! 1 = r ! 0 + 5" "r ! 2 = r ! 1 + 12"
    by (auto simp: numeral_2_eq_2)
  then have "r = [0, 5, 17]"
    by (auto simp: numeral_3_eq_3 numeral_2_eq_2 length_Suc_conv)
  moreover have "compute_trajectory_length exact_norm_diff (+) 0 [[5, 7 :: real]] = Inr [0]"
    using compute_trajectory_length_cumulative
      [of "[[5, 7 :: real]]" exact_norm_diff "\<lambda>i. 0" "(+)" 0]
    by auto
  ultimately show ?thesis
    using r(1) by simp
qed

section \<open>Properties of create_parameter_mapping\<close>

lemma split_dot_not_Nil: "split_dot s \<noteq> []"
  by (induction s) (auto split: list.splits)

lemma hd_split_dot: "hd (split_dot s) = takeWhile (\<lambda>c. c \<noteq> CHR ''.'') s"
  using split_dot_not_Nil by (induction s) (auto split: list.splits)

lemma layer_of_takeWhile: "layer_of name = takeWhile (\<lambda>c. c \<noteq> CHR ''.'') name"
proof (cases "CHR ''.'' \<in> set name")
  case True
  then show ?thesis by (simp add: layer_of_def hd_split_dot)
next
  case False
  then have t: "takeWhile (\<lambda>c. c \<noteq> CHR ''.'') name = name"
    by (induction name) auto
  from False have l: "layer_of name = name"
    by (simp add: layer_of_def)
  show ?thesis by (simp only: l t)
qed

lemma endswith_iff: "endswith s suffix \<longleftrightarrow> (\<exists>p. s = p @ suffix)"
proof
  assume "endswith s suffix"
  then have "s = take (length s - length suffix) s @ suffix"
    by (metis append_take_drop_id endswith_def)
  then show "\<exists>p. s = p @ suffix" ..
next
  assume "\<exists>p. s = p @ suffix"
  then show "endswith s suffix" by (auto simp: endswith_def)
qed

lemma type_of_cases:
  "type_of name = (if \<exists>p. name = p @ ''bias'' then ''bias'' else ''weight'')"
  by (simp add: type_of_def endswith_iff)

subsection \<open>Row-major coordinates\<close>

lemma div_less_prod: "i < d * p \<Longrightarrow> i div d < (p::nat)"
  by (simp add: less_mult_imp_div_less mult.commute)

lemma unravel_rev_valid: "i < prod_list ds \<Longrightarrow> list_all2 (<) (unravel_rev i ds) ds"
proof (induction ds arbitrary: i)
  case Nil
  show ?case by simp
next
  case (Cons d ds)
  then have "0 < d" by (cases d) auto
  moreover have "i div d < prod_list ds"
    using Cons.prems by (simp add: div_less_prod)
  ultimately show ?case using Cons.IH by simp
qed

lemma unravel_rev_inj:
  "i < prod_list ds \<Longrightarrow> j < prod_list ds \<Longrightarrow> unravel_rev i ds = unravel_rev j ds \<Longrightarrow> i = j"
proof (induction ds arbitrary: i j)
  case Nil
  then show ?case by simp
next
  case (Cons d ds)
  have "i div d < prod_list ds" "j div d < prod_list ds"
    using Cons.prems(1,2) by (simp_all add: div_less_prod)
  moreover have "unravel_rev (i div d) ds = unravel_rev (j div d) ds" and m: "i mod d = j mod d"
    using Cons.prems(3) by simp_all
  ultimately have "i div d = j div d" using Cons.IH by blast
  with m show ?case by (metis div_mult_mod_eq)
qed

lemma unravel_rev_surj:
  "list_all2 (<) c ds \<Longrightarrow> \<exists>i < prod_list ds. unravel_rev i ds = c"
proof (induction c ds rule: list_all2_induct)
  case Nil
  show ?case by simp
next
  case (Cons x c d ds)
  then obtain r where r: "r < prod_list ds" "unravel_rev r ds = c" by blast
  let ?i = "x + d * r"
  have "Suc r \<le> prod_list ds" using r(1) by simp
  then have "d * Suc r \<le> d * prod_list ds" by (rule mult_le_mono2)
  then have "?i < d * prod_list ds" using Cons.hyps(1) by simp
  moreover have "?i mod d = x" "?i div d = r"
    using Cons.hyps(1) by simp_all
  ultimately have "?i < prod_list (d # ds) \<and> unravel_rev ?i (d # ds) = x # c"
    using r(2) by simp
  then show ?case by blast
qed

lemma unravel_index_coords: "i < numel shape \<Longrightarrow> unravel_index i shape = Inr (coords shape i)"
  by (simp add: unravel_index_def numel_def coords_def)

lemma coords_valid: "i < numel shape \<Longrightarrow> list_all2 (<) (coords shape i) shape"
  using unravel_rev_valid [of i "rev shape"]
  by (simp add: numel_def coords_def list_all2_rev1)

lemma coords_inj:
  "i < numel shape \<Longrightarrow> j < numel shape \<Longrightarrow> coords shape i = coords shape j \<Longrightarrow> i = j"
  using unravel_rev_inj [of i "rev shape" j]
  by (simp add: numel_def coords_def)

lemma coords_surj:
  assumes "list_all2 (<) c shape"
  shows "\<exists>i < numel shape. coords shape i = c"
proof -
  have "list_all2 (<) (rev c) (rev shape)"
    using assms by simp
  from unravel_rev_surj [OF this] obtain i
    where "i < prod_list (rev shape)" "unravel_rev i (rev shape) = rev c" by blast
  then have "i < numel shape \<and> coords shape i = c"
    by (simp add: numel_def coords_def)
  then show ?thesis by blast
qed

subsection \<open>The two loops\<close>

lemma fill_param_spec:
  assumes "\<forall>i \<in> set idx. i < numel shape"
  shows "fill_param name shape off idx m =
           Inr (\<lambda>k. if off \<le> k \<and> k - off \<in> set idx
                     then Some (make_entry name shape (coords shape (k - off))) else m k)"
  using assms
proof (induction idx arbitrary: m)
  case Nil
  show ?case by simp
next
  case (Cons i idx)
  let ?e = "make_entry name shape (coords shape i)"
  have u: "unravel_index i shape = Inr (coords shape i)"
    using Cons.prems by (simp add: unravel_index_coords)
  have "fill_param name shape off (i # idx) m = fill_param name shape off idx (m(off + i \<mapsto> ?e))"
    by (simp add: u bind_err_def)
  also have "\<dots> = Inr (\<lambda>k. if off \<le> k \<and> k - off \<in> set idx
                     then Some (make_entry name shape (coords shape (k - off)))
                     else (m(off + i \<mapsto> ?e)) k)"
    using Cons.prems by (intro Cons.IH) simp
  also have "(\<lambda>k. if off \<le> k \<and> k - off \<in> set idx
                     then Some (make_entry name shape (coords shape (k - off)))
                     else (m(off + i \<mapsto> ?e)) k)
           = (\<lambda>k. if off \<le> k \<and> k - off \<in> set (i # idx)
                     then Some (make_entry name shape (coords shape (k - off))) else m k)"
    by (rule ext) auto
  finally show ?case .
qed

lemma fill_param_range:
  "fill_param name shape off [0..<numel shape] m =
     Inr (\<lambda>k. if off \<le> k \<and> k < off + numel shape
               then Some (make_entry name shape (coords shape (k - off))) else m k)"
proof -
  have "(\<lambda>k. if off \<le> k \<and> k - off \<in> set [0..<numel shape]
               then Some (make_entry name shape (coords shape (k - off))) else m k)
      = (\<lambda>k. if off \<le> k \<and> k < off + numel shape
               then Some (make_entry name shape (coords shape (k - off))) else m k)"
    by (rule ext) auto
  then show ?thesis
    using fill_param_spec [of "[0..<numel shape]" shape name off m] by simp
qed

lemma entry_at_lower: "entry_at model off k = Some e \<Longrightarrow> off \<le> k"
  by (induction model off k rule: entry_at.induct) (auto split: if_splits)

lemma mapping_loop_spec:
  "mapping_loop model off m =
     Inr (\<lambda>k. case entry_at model off k of Some e \<Rightarrow> Some e | None \<Rightarrow> m k)"
proof (induction model arbitrary: off m)
  case Nil
  show ?case by simp
next
  case (Cons p rest)
  obtain name shape where p: "p = (name, shape)" by (cases p)
  let ?m1 = "\<lambda>k. if off \<le> k \<and> k < off + numel shape
               then Some (make_entry name shape (coords shape (k - off))) else m k"
  have "mapping_loop (p # rest) off m = mapping_loop rest (off + numel shape) ?m1"
    by (simp add: p fill_param_range bind_err_def Let_def)
  also have "\<dots> = Inr (\<lambda>k. case entry_at rest (off + numel shape) k of
                          Some e \<Rightarrow> Some e | None \<Rightarrow> ?m1 k)"
    by (rule Cons.IH)
  also have "(\<lambda>k. case entry_at rest (off + numel shape) k of
                          Some e \<Rightarrow> Some e | None \<Rightarrow> ?m1 k)
           = (\<lambda>k. case entry_at (p # rest) off k of Some e \<Rightarrow> Some e | None \<Rightarrow> m k)"
  proof (rule ext)
    fix k
    show "(case entry_at rest (off + numel shape) k of Some e \<Rightarrow> Some e | None \<Rightarrow> ?m1 k)
        = (case entry_at (p # rest) off k of Some e \<Rightarrow> Some e | None \<Rightarrow> m k)"
    proof (cases "off \<le> k \<and> k < off + numel shape")
      case True
      then have "entry_at rest (off + numel shape) k = None"
        using entry_at_lower [of rest "off + numel shape" k] by (cases "entry_at rest (off + numel shape) k") auto
      with True show ?thesis by (simp add: p)
    next
      case False
      then show ?thesis by (auto simp: p split: option.splits)
    qed
  qed
  finally show ?case .
qed

lemma create_parameter_mapping_spec:
  "create_parameter_mapping model = Inr (\<lambda>k. entry_at model 0 k)"
proof -
  have "(\<lambda>k. case entry_at model 0 k of Some e \<Rightarrow> Some e | None \<Rightarrow> Map.empty k)
      = (\<lambda>k. entry_at model 0 k)"
    by (rule ext) (simp split: option.splits)
  then show ?thesis
    by (simp add: create_parameter_mapping_def mapping_loop_spec)
qed

subsection \<open>The entry at a flat index\<close>

lemma total_params_Cons:
  "total_params ((name, shape) # rest) = numel shape + total_params rest"
  by (simp add: total_params_def)

lemma entry_at_defined:
  "entry_at model off k \<noteq> None \<longleftrightarrow> off \<le> k \<and> k < off + total_params model"
proof (induction model off k rule: entry_at.induct)
  case (1 off k)
  show ?case by (simp add: total_params_def)
next
  case (2 name shape rest off k)
  then show ?case by (auto simp: total_params_Cons)
qed

lemma entry_at_origin:
  "entry_at model off k = Some e \<Longrightarrow>
     \<exists>name shape i. (name, shape) \<in> set model \<and> i < numel shape
        \<and> e = make_entry name shape (coords shape i)"
proof (induction model off k rule: entry_at.induct)
  case (1 off k)
  then show ?case by simp
next
  case (2 name shape rest off k)
  show ?case
  proof (cases "off \<le> k \<and> k < off + numel shape")
    case True
    then have "e = make_entry name shape (coords shape (k - off))" "k - off < numel shape"
      using "2.prems" by auto
    then show ?thesis by auto
  next
    case False
    then have "entry_at rest (off + numel shape) k = Some e"
      using "2.prems" by auto
    from "2.IH" [OF False this] show ?thesis by auto
  qed
qed

lemma entry_at_inj:
  assumes "distinct (map fst model)"
    and "entry_at model off k1 = Some e1" and "entry_at model off k2 = Some e2"
    and "pm_name e1 = pm_name e2" and "pm_coordinates e1 = pm_coordinates e2"
  shows "k1 = k2"
  using assms
proof (induction model arbitrary: off)
  case Nil
  then show ?case by simp
next
  case (Cons p rest)
  obtain name shape where p: "p = (name, shape)" by (cases p)
  let ?in = "\<lambda>k. off \<le> k \<and> k < off + numel shape"
  have fresh: "name \<notin> fst ` set rest" and dist: "distinct (map fst rest)"
    using Cons.prems(1) by (simp_all add: p)
  have other: "pm_name e \<noteq> name" if "entry_at rest (off + numel shape) k = Some e" for k e
  proof -
    from entry_at_origin [OF that] obtain n s i
      where "(n, s) \<in> set rest" "e = make_entry n s (coords s i)" by blast
    then have "pm_name e \<in> fst ` set rest"
      by (force simp: make_entry_def)
    with fresh show ?thesis by auto
  qed
  show ?case
  proof (cases "?in k1")
    case in1: True
    then have e1: "e1 = make_entry name shape (coords shape (k1 - off))"
      using Cons.prems(2) by (simp add: p)
    show ?thesis
    proof (cases "?in k2")
      case True
      then have "e2 = make_entry name shape (coords shape (k2 - off))"
        using Cons.prems(3) by (simp add: p)
      with e1 Cons.prems(5) have "coords shape (k1 - off) = coords shape (k2 - off)"
        by (simp add: make_entry_def)
      moreover have "k1 - off < numel shape" "k2 - off < numel shape"
        using in1 True by auto
      ultimately have "k1 - off = k2 - off" by (rule_tac coords_inj)
      with in1 True show ?thesis by auto
    next
      case False
      then have "entry_at rest (off + numel shape) k2 = Some e2"
        using Cons.prems(3) by (auto simp: p split: if_splits)
      from other [OF this] e1 Cons.prems(4) show ?thesis
        by (simp add: make_entry_def)
    qed
  next
    case out1: False
    then have r1: "entry_at rest (off + numel shape) k1 = Some e1"
      using Cons.prems(2) by (auto simp: p split: if_splits)
    show ?thesis
    proof (cases "?in k2")
      case True
      then have "e2 = make_entry name shape (coords shape (k2 - off))"
        using Cons.prems(3) by (simp add: p)
      with other [OF r1] Cons.prems(4) show ?thesis
        by (simp add: make_entry_def)
    next
      case False
      then have "entry_at rest (off + numel shape) k2 = Some e2"
        using Cons.prems(3) by (auto simp: p split: if_splits)
      from Cons.IH [OF dist r1 this Cons.prems(4,5)] show ?thesis .
    qed
  qed
qed

lemma entry_at_surj:
  assumes "(name, shape) \<in> set model" and "list_all2 (<) c shape"
  shows "\<exists>k e. entry_at model off k = Some e \<and> pm_name e = name \<and> pm_coordinates e = c"
  using assms(1)
proof (induction model arbitrary: off)
  case Nil
  then show ?case by simp
next
  case (Cons p rest)
  obtain n s where p: "p = (n, s)" by (cases p)
  show ?case
  proof (cases "(name, shape) = p")
    case True
    from coords_surj [OF assms(2)] obtain i where i: "i < numel shape" "coords shape i = c"
      by blast
    have "entry_at (p # rest) off (off + i) = Some (make_entry name shape c)"
      using True [symmetric] i by simp
    then show ?thesis
      by (intro exI [of _ "off + i"] exI [of _ "make_entry name shape c"])
         (simp add: make_entry_def)
  next
    case False
    then have "(name, shape) \<in> set rest" using Cons.prems by auto
    from Cons.IH [OF this, of "off + numel s"] obtain k e
      where ke: "entry_at rest (off + numel s) k = Some e" "pm_name e = name" "pm_coordinates e = c"
      by blast
    from entry_at_lower [OF ke(1)] have "\<not> (off \<le> k \<and> k < off + numel s)" by simp
    then have "entry_at (p # rest) off k = Some e"
      using ke(1) by (auto simp: p)
    with ke(2,3) show ?thesis by blast
  qed
qed

lemma entry_at_slot:
  assumes "entry_at model off k = Some e"
  shows "(pm_name e, pm_coordinates e) \<in> slots model"
proof -
  from entry_at_origin [OF assms] obtain name shape i
    where o: "(name, shape) \<in> set model" "i < numel shape"
      "e = make_entry name shape (coords shape i)" by blast
  then show ?thesis
    using coords_valid [OF o(2)] by (auto simp: slots_def make_entry_def)
qed

lemma entry_at_bij:
  assumes "distinct (map fst model)"
  shows "bij_betw (\<lambda>k. (pm_name (the (entry_at model 0 k)), pm_coordinates (the (entry_at model 0 k))))
           {0..<total_params model} (slots model)"
proof (rule bij_betwI')
  fix k1 k2
  assume "k1 \<in> {0..<total_params model}" "k2 \<in> {0..<total_params model}"
  then obtain e1 e2 where e: "entry_at model 0 k1 = Some e1" "entry_at model 0 k2 = Some e2"
    using entry_at_defined [of model 0] by fastforce
  show "((pm_name (the (entry_at model 0 k1)), pm_coordinates (the (entry_at model 0 k1)))
        = (pm_name (the (entry_at model 0 k2)), pm_coordinates (the (entry_at model 0 k2))))
        \<longleftrightarrow> k1 = k2"
    using entry_at_inj [OF assms e] e by auto
next
  fix k
  assume "k \<in> {0..<total_params model}"
  then obtain e where "entry_at model 0 k = Some e"
    using entry_at_defined [of model 0 k] by fastforce
  then show "(pm_name (the (entry_at model 0 k)), pm_coordinates (the (entry_at model 0 k)))
               \<in> slots model"
    using entry_at_slot by fastforce
next
  fix y
  assume "y \<in> slots model"
  then obtain name c shape where y: "y = (name, c)" "(name, shape) \<in> set model"
    "list_all2 (<) c shape"
    by (auto simp: slots_def)
  from entry_at_surj [OF y(2,3), of 0] obtain k e
    where ke: "entry_at model 0 k = Some e" "pm_name e = name" "pm_coordinates e = c" by blast
  then have "k \<in> {0..<total_params model}"
    using entry_at_defined [of model 0 k] by simp
  with ke y(1) show "\<exists>k \<in> {0..<total_params model}.
      y = (pm_name (the (entry_at model 0 k)), pm_coordinates (the (entry_at model 0 k)))"
    by (intro bexI [of _ k]) simp_all
qed

lemma entry_at_dom: "dom (\<lambda>k. entry_at model 0 k) = {0..<total_params model}"
  using entry_at_defined [of model 0] by (auto simp: dom_def)

lemma entry_at_layer_type:
  assumes "entry_at model off k = Some e"
  shows "pm_layer e = takeWhile (\<lambda>c. c \<noteq> CHR ''.'') (pm_name e)
       \<and> pm_type e = (if \<exists>p. pm_name e = p @ ''bias'' then ''bias'' else ''weight'')"
proof -
  from entry_at_origin [OF assms] obtain name shape i
    where "e = make_entry name shape (coords shape i)" by blast
  then show ?thesis
    by (simp add: make_entry_def layer_of_takeWhile type_of_cases)
qed

text \<open>
  C4. The mapping is built without error, its keys are exactly the flat offsets
  \<open>0..N-1\<close>, and (parameter names being distinct, as in an enumeration of named
  parameters) flat offsets correspond one to one to the (tensor, coordinate) pairs of
  the model. In every entry the layer is the name up to its first dot (the whole name
  when there is none) and the type is bias exactly when the name ends in bias, else
  weight.
\<close>

theorem create_parameter_mapping_bijection:
  "\<exists>mapping. create_parameter_mapping model = Inr mapping
      \<and> dom mapping = {0..<total_params model}
      \<and> (distinct (map fst model) \<longrightarrow>
            bij_betw (\<lambda>k. (pm_name (the (mapping k)), pm_coordinates (the (mapping k))))
              {0..<total_params model} (slots model))
      \<and> (\<forall>k e. mapping k = Some e \<longrightarrow>
            pm_layer e = takeWhile (\<lambda>c. c \<noteq> CHR ''.'') (pm_name e)
            \<and> (pm_type e = ''bias'' \<longleftrightarrow> (\<exists>p. pm_name e = p @ ''bias''))
            \<and> (pm_type e = ''weight'' \<longleftrightarrow> \<not> (\<exists>p. pm_name e = p @ ''bias'')))"
proof -
  have "\<forall>k e. entry_at model 0 k = Some e \<longrightarrow>
            pm_layer e = takeWhile (\<lambda>c. c \<noteq> CHR ''.'') (pm_name e)
            \<and> (pm_type e = ''bias'' \<longleftrightarrow> (\<exists>p. pm_name e = p @ ''bias''))
            \<and> (pm_type e = ''weight'' \<longleftrightarrow> \<not> (\<exists>p. pm_name e = p @ ''bias''))"
    using entry_at_layer_type [of model 0] by simp
  then show ?thesis
    using entry_at_dom [of model] entry_at_bij [of model]
    by (simp add: create_parameter_mapping_spec)
qed

theorem create_parameter_mapping_bijection_witness:
  "\<exists>mapping. create_parameter_mapping [(''fc.weight'', [2, 2]), (''fc.bias'', [2])] = Inr mapping
      \<and> dom mapping = {0..<6}
      \<and> bij_betw (\<lambda>k. (pm_name (the (mapping k)), pm_coordinates (the (mapping k))))
            {0..<6} (slots [(''fc.weight'', [2, 2]), (''fc.bias'', [2])])
      \<and> mapping 3 = Some \<lparr>pm_name = ''fc.weight'', pm_layer = ''fc'', pm_coordinates = [1, 1],
                            pm_shape = [2, 2], pm_type = ''weight''\<rparr>
      \<and> mapping 5 = Some \<lparr>pm_name = ''fc.bias'', pm_layer = ''fc'', pm_coordinates = [1],
                            pm_shape = [2], pm_type = ''bias''\<rparr>"
proof -
  let ?M = "[(''fc.weight'', [2, 2]), (''fc.bias'', [2])]"
  have n: "total_params ?M = 6" and d: "distinct (map fst ?M)"
    by (simp_all add: total_params_def numel_def)
  from create_parameter_mapping_bijection [of ?M] obtain mapping
    where m: "create_parameter_mapping ?M = Inr mapping"
      "dom mapping = {0..<6}"
      "bij_betw (\<lambda>k. (pm_name (the (mapping k)), pm_coordinates (the (mapping k))))
         {0..<6} (slots ?M)"
    unfolding n using d by blast
  have "mapping = (\<lambda>k. entry_at ?M 0 k)"
    using m(1) by (simp add: create_parameter_mapping_spec)
  then have "mapping 3 = Some \<lparr>pm_name = ''fc.weight'', pm_layer = ''fc'', pm_coordinates = [1, 1],
                            pm_shape = [2, 2], pm_type = ''weight''\<rparr>"
    and "mapping 5 = Some \<lparr>pm_name = ''fc.bias'', pm_layer = ''fc'', pm_coordinates = [1],
                            pm_shape = [2], pm_type = ''bias''\<rparr>"
    by (simp_all add: numel_def coords_def make_entry_def layer_of_def type_of_def endswith_def)
  with m show ?thesis by blast
qed

text \<open>
  C7, as amended. A model without parameters (none enumerated, or only tensors without
  elements) does not make the construction fail: the result is the empty mapping.
\<close>

theorem create_parameter_mapping_no_parameters:
  assumes "total_params model = 0"
  shows "create_parameter_mapping model = Inr Map.empty"
proof -
  have "entry_at model 0 k = None" for k
    using entry_at_defined [of model 0 k] assms by simp
  then show ?thesis
    by (simp add: create_parameter_mapping_spec)
qed

theorem create_parameter_mapping_no_parameters_witness:
  "total_params [(''empty.weight'', [0, 3])] = 0
   \<and> create_parameter_mapping [(''empty.weight'', [0, 3])] = Inr Map.empty"
  using create_parameter_mapping_no_parameters [of "[(''empty.weight'', [0, 3])]"]
  by (simp add: total_params_def numel_def)

text \<open>
  C7, as stated, fails: for the model that enumerates no parameter at all the
  construction returns the empty mapping instead of raising ConfigurationError.
\<close>

theorem create_parameter_mapping_empty_counterexample:
  "create_parameter_mapping [] = Inr Map.empty
   \<and> create_parameter_mapping [] \<noteq> Inl ConfigurationError"
  by (simp add: create_parameter_mapping_def)


section \<open>Properties of analyze_eigenvector\<close>

lemma stable_argsort_contract: "argsort_contract stable_argsort"
  by (auto simp: argsort_contract_def stable_argsort_def)


lemma slice_from_drop: "\<exists>n. slice_from start xs = drop n xs"
  by (auto simp: slice_from_def)



lemma top_indices_props:
  assumes "argsort_contract argsort"
  shows "distinct (top_indices argsort ev k)"
    and "set (top_indices argsort ev k) \<subseteq> {0..<length ev}"
    and "sorted_wrt (\<ge>) (map (\<lambda>i. \<bar>ev ! i\<bar>) (top_indices argsort ev k))"
proof -
  let ?a = "argsort (map abs ev)"
  obtain n where n: "slice_from (- k) ?a = drop n ?a"
    using slice_from_drop by blast
  have c: "distinct ?a" "set ?a = {0..<length ev}" "sorted (map (\<lambda>i. map abs ev ! i) ?a)"
    using assms by (simp_all add: argsort_contract_def)
  show "distinct (top_indices argsort ev k)"
    using c(1) by (simp add: top_indices_def n)
  show sub: "set (top_indices argsort ev k) \<subseteq> {0..<length ev}"
    using c(2) set_drop_subset [of n ?a] by (simp add: top_indices_def n)
  have "map (\<lambda>i. map abs ev ! i) ?a = map (\<lambda>i. \<bar>ev ! i\<bar>) ?a"
    using c(2) by (intro map_cong) auto
  with c(3) have "sorted (map (\<lambda>i. \<bar>ev ! i\<bar>) ?a)" by simp
  then have "sorted (drop n (map (\<lambda>i. \<bar>ev ! i\<bar>) ?a))"
    by (rule sorted_wrt_drop)
  then have "sorted (map (\<lambda>i. \<bar>ev ! i\<bar>) (drop n ?a))"
    by (simp add: drop_map)
  then show "sorted_wrt (\<ge>) (map (\<lambda>i. \<bar>ev ! i\<bar>) (top_indices argsort ev k))"
    by (simp add: top_indices_def n rev_map [symmetric] sorted_wrt_rev)
qed



lemma top_loop_ok:
  assumes "\<forall>i \<in> set idx. pm i \<noteq> None \<and> i < length ev"
  shows "top_loop ev pm idx = Inr (map (\<lambda>i. make_contributor i (the (pm i)) (ev ! i)) idx)"
  using assms by (induction idx) (auto simp: bind_err_def)

lemma top_loop_fail:
  assumes "\<forall>i \<in> set idx. i < length ev" and "\<exists>i \<in> set idx. pm i = None"
  shows "top_loop ev pm idx = Inl KeyError"
  using assms
proof (induction idx)
  case Nil
  then show ?case by simp
next
  case (Cons i idx)
  show ?case
  proof (cases "pm i")
    case None
    then show ?thesis by simp
  next
    case (Some info)
    then have "\<exists>j \<in> set idx. pm j = None" using Cons.prems(2) by auto
    then have "top_loop ev pm idx = Inl KeyError"
      using Cons.IH Cons.prems(1) by simp
    then show ?thesis
      using Some Cons.prems(1) by (simp add: bind_err_def)
  qed
qed

lemma layer_loop_ok:
  assumes "\<forall>p \<in> set ivs. pm (fst p) \<noteq> None"
  shows "\<exists>r. layer_loop pm ivs lc = Inr r"
  using assms
proof (induction ivs arbitrary: lc)
  case Nil
  show ?case by simp
next
  case (Cons p ivs)
  obtain i v where p: "p = (i, v)" by (cases p)
  from Cons.prems obtain info where "pm i = Some info" by (auto simp: p)
  moreover have "\<forall>q \<in> set ivs. pm (fst q) \<noteq> None" using Cons.prems by simp
  ultimately show ?case
    using Cons.IH by (simp add: p Let_def)
qed

lemma layer_loop_fail:
  assumes "\<exists>p \<in> set ivs. pm (fst p) = None"
  shows "layer_loop pm ivs lc = Inl KeyError"
  using assms
proof (induction ivs arbitrary: lc)
  case Nil
  then show ?case by simp
next
  case (Cons p ivs)
  obtain i v where p: "p = (i, v)" by (cases p)
  show ?case
  proof (cases "pm i")
    case None
    then show ?thesis by (simp add: p)
  next
    case (Some info)
    then have "\<exists>q \<in> set ivs. pm (fst q) = None" using Cons.prems by (auto simp: p)
    then show ?thesis
      using Cons.IH Some by (simp add: p Let_def)
  qed
qed

lemma fst_set_enumerate: "fst ` set (zip [0..<length xs] xs) = {0..<length xs}"
proof -
  have m: "map fst (zip [0..<length xs] xs) = [0..<length xs]"
    by simp
  have "fst ` set (zip [0..<length xs] xs) = set (map fst (zip [0..<length xs] xs))"
    by (simp only: set_map)
  also have "\<dots> = set [0..<length xs]"
    by (simp only: m)
  finally show ?thesis by simp
qed

lemma mapping_defined:
  assumes "create_parameter_mapping model = Inr pm"
  shows "pm k \<noteq> None \<longleftrightarrow> k < total_params model"
proof -
  have "pm = (\<lambda>k. entry_at model 0 k)"
    using assms by (simp add: create_parameter_mapping_spec)
  then show ?thesis
    using entry_at_defined [of model 0 k] by simp
qed


lemma top_branch:
  "analyze_eigenvector argsort ev pm k False =
     bind_err (top_loop ev pm (top_indices argsort ev k)) (\<lambda>cs. Inr (TopContributors cs))"
  by (simp add: analyze_eigenvector_def)

lemma layer_branch:
  "analyze_eigenvector argsort ev pm k True =
     bind_err (layer_loop pm (zip [0..<length ev] (map abs ev)) Map.empty)
       (\<lambda>lc. Inr (LayerContributions lc))"
  by (simp add: analyze_eigenvector_def)

lemma top_branch_cases:
  assumes "argsort_contract argsort"
  shows "analyze_eigenvector argsort ev pm k False =
           (if \<exists>i \<in> set (top_indices argsort ev k). pm i = None then Inl KeyError
            else Inr (TopContributors
                   (map (\<lambda>i. make_contributor i (the (pm i)) (ev ! i)) (top_indices argsort ev k))))"
proof -
  have lt: "\<forall>i \<in> set (top_indices argsort ev k). i < length ev"
    using top_indices_props(2) [OF assms, of ev k] by auto
  show ?thesis
  proof (cases "\<exists>i \<in> set (top_indices argsort ev k). pm i = None")
    case True
    then show ?thesis
      using top_loop_fail [OF lt] by (simp add: top_branch bind_err_def)
  next
    case False
    then have "\<forall>i \<in> set (top_indices argsort ev k). pm i \<noteq> None \<and> i < length ev"
      using lt by auto
    from top_loop_ok [OF this] False show ?thesis
      by (simp add: top_branch bind_err_def)
  qed
qed

lemma layer_branch_cases:
  "(\<exists>lc. analyze_eigenvector argsort ev pm k True = Inr (LayerContributions lc)
          \<and> (\<forall>i < length ev. pm i \<noteq> None))
   \<or> (analyze_eigenvector argsort ev pm k True = Inl KeyError
          \<and> (\<exists>i < length ev. pm i = None))"
proof (cases "\<exists>i < length ev. pm i = None")
  case True
  then obtain i where i: "i < length ev" "pm i = None" by blast
  then have "i \<in> fst ` set (zip [0..<length ev] (map abs ev))"
    using fst_set_enumerate [of "map abs ev"] by simp
  then obtain p where "p \<in> set (zip [0..<length ev] (map abs ev))" "fst p = i"
    by (auto simp: image_iff)
  with i(2) have "\<exists>p \<in> set (zip [0..<length ev] (map abs ev)). pm (fst p) = None"
    by auto
  from layer_loop_fail [OF this] True show ?thesis
    by (simp add: layer_branch bind_err_def)
next
  case False
  have "pm (fst p) \<noteq> None" if "p \<in> set (zip [0..<length ev] (map abs ev))" for p
  proof -
    from that have "fst p \<in> fst ` set (zip [0..<length ev] (map abs ev))"
      by (rule imageI)
    then have "fst p < length ev"
      using fst_set_enumerate [of "map abs ev"] by simp
    with False show ?thesis by simp
  qed
  then have "\<forall>p \<in> set (zip [0..<length ev] (map abs ev)). pm (fst p) \<noteq> None"
    by simp
  from layer_loop_ok [OF this] obtain r
    where "layer_loop pm (zip [0..<length ev] (map abs ev)) Map.empty = Inr r" by blast
  then have "analyze_eigenvector argsort ev pm k True = Inr (LayerContributions r)"
    by (simp add: layer_branch bind_err_def)
  with False show ?thesis by simp
qed





lemma top_indices_single: "top_indices stable_argsort [5] 10 = [0]"
  by (simp add: top_indices_def stable_argsort_def slice_from_def)

lemma entry_at_w2:
  "entry_at [(''w'', [2])] 0 k =
     (if k < 2 then Some \<lparr>pm_name = ''w'', pm_layer = ''w'', pm_coordinates = [k mod 2],
                           pm_shape = [2], pm_type = ''weight''\<rparr> else None)"
  by (simp add: numel_def coords_def make_entry_def layer_of_def type_of_def endswith_def)




text \<open>
  C8, as amended. Against the mapping of a model with \<open>N\<close> parameters: an eigenvector
  of length at most \<open>N\<close> is analysed without error in both modes; for a longer one the
  per-layer mode fails with KeyError, and the top-contributor mode fails with KeyError
  exactly when one of the selected indices is \<open>N\<close> or more. IndexError is never
  raised.
\<close>

theorem analyze_eigenvector_length_mismatch:
  assumes "argsort_contract argsort"
    and "create_parameter_mapping model = Inr param_mapping"
  shows "(length eigenvector \<le> total_params model \<longrightarrow>
            (\<exists>cs. analyze_eigenvector argsort eigenvector param_mapping top_k False
                     = Inr (TopContributors cs))
          \<and> (\<exists>lc. analyze_eigenvector argsort eigenvector param_mapping top_k True
                     = Inr (LayerContributions lc)))
       \<and> (total_params model < length eigenvector \<longrightarrow>
            analyze_eigenvector argsort eigenvector param_mapping top_k True = Inl KeyError
          \<and> (if \<exists>i \<in> set (top_indices argsort eigenvector top_k). total_params model \<le> i
              then analyze_eigenvector argsort eigenvector param_mapping top_k False
                     = Inl KeyError
              else \<exists>cs. analyze_eigenvector argsort eigenvector param_mapping top_k False
                     = Inr (TopContributors cs)))
       \<and> analyze_eigenvector argsort eigenvector param_mapping top_k by_layer
            \<noteq> Inl IndexError"
proof -
  let ?N = "total_params model"
  let ?idx = "top_indices argsort eigenvector top_k"
  note d = mapping_defined [OF assms(2)]
  note t = top_branch_cases [OF assms(1), of eigenvector param_mapping top_k]
  note l = layer_branch_cases [of argsort eigenvector param_mapping top_k]
  have u: "param_mapping k = None \<longleftrightarrow> ?N \<le> k" for k
    using d [of k] by auto
  have none: "(\<exists>i \<in> set ?idx. param_mapping i = None) \<longleftrightarrow> (\<exists>i \<in> set ?idx. ?N \<le> i)"
    by (simp add: u)
  have lt: "\<forall>i \<in> set ?idx. i < length eigenvector"
    using top_indices_props(2) [OF assms(1), of eigenvector top_k] by auto
  have short: "(\<exists>cs. analyze_eigenvector argsort eigenvector param_mapping top_k False
                     = Inr (TopContributors cs))
          \<and> (\<exists>lc. analyze_eigenvector argsort eigenvector param_mapping top_k True
                     = Inr (LayerContributions lc))"
    if le: "length eigenvector \<le> ?N"
  proof -
    have "\<not> (\<exists>i \<in> set ?idx. ?N \<le> i)"
      using lt le by auto
    with t none have a: "\<exists>cs. analyze_eigenvector argsort eigenvector param_mapping top_k False
                     = Inr (TopContributors cs)"
      by simp
    have "\<not> (\<exists>i < length eigenvector. param_mapping i = None)"
      using le by (simp add: u)
    with l have "\<exists>lc. analyze_eigenvector argsort eigenvector param_mapping top_k True
                     = Inr (LayerContributions lc)"
      by blast
    with a show ?thesis by simp
  qed
  have long: "analyze_eigenvector argsort eigenvector param_mapping top_k True = Inl KeyError
          \<and> (if \<exists>i \<in> set ?idx. ?N \<le> i
              then analyze_eigenvector argsort eigenvector param_mapping top_k False
                     = Inl KeyError
              else \<exists>cs. analyze_eigenvector argsort eigenvector param_mapping top_k False
                     = Inr (TopContributors cs))"
    if gt: "?N < length eigenvector"
  proof -
    have "param_mapping ?N = None"
      by (simp add: u)
    with gt have "\<exists>i < length eigenvector. param_mapping i = None"
      by blast
    with l have "analyze_eigenvector argsort eigenvector param_mapping top_k True = Inl KeyError"
      by auto
    moreover have "if \<exists>i \<in> set ?idx. ?N \<le> i
              then analyze_eigenvector argsort eigenvector param_mapping top_k False
                     = Inl KeyError
              else \<exists>cs. analyze_eigenvector argsort eigenvector param_mapping top_k False
                     = Inr (TopContributors cs)"
      using t none by simp
    ultimately show ?thesis by simp
  qed
  have never: "analyze_eigenvector argsort eigenvector param_mapping top_k by_layer
            \<noteq> Inl IndexError"
  proof (cases by_layer)
    case True
    with l show ?thesis by auto
  next
    case False
    with t show ?thesis by (simp split: if_splits)
  qed
  from short long never show ?thesis by simp
qed

theorem analyze_eigenvector_length_mismatch_witness:
  "create_parameter_mapping [(''w'', [2])] = Inr (\<lambda>k. entry_at [(''w'', [2])] 0 k)
   \<and> total_params [(''w'', [2])] < length [5, 1, 7 :: real]
   \<and> analyze_eigenvector stable_argsort [5, 1, 7] (\<lambda>k. entry_at [(''w'', [2])] 0 k) 1 True
        = Inl KeyError
   \<and> analyze_eigenvector stable_argsort [5, 1, 7] (\<lambda>k. entry_at [(''w'', [2])] 0 k) 1 True
        \<noteq> Inl IndexError"
proof -
  have n: "total_params [(''w'', [2])] < length [5, 1, 7 :: real]"
    by (simp add: total_params_def numel_def)
  from analyze_eigenvector_length_mismatch
    [OF stable_argsort_contract create_parameter_mapping_spec,
      of "[5, 1, 7]" "[(''w'', [2])]" 1 True] n
  show ?thesis
    using create_parameter_mapping_spec by simp
qed

text \<open>
  C8, as stated, fails: with a mapping of two parameters, an eigenvector of length one
  is analysed in both modes and no error is raised.
\<close>

theorem analyze_eigenvector_short_counterexample:
  "total_params [(''w'', [2])] = 2
   \<and> analyze_model stable_argsort [(''w'', [2])] [5] 10 False =
       Inr (TopContributors
         [\<lparr>c_index = 0, c_param_name = ''w'', c_layer = ''w'', c_coordinates = [0],
            c_contribution = 5, c_abs_contribution = 5, c_param_type = ''weight''\<rparr>])
   \<and> analyze_model stable_argsort [(''w'', [2])] [5] 10 True =
       Inr (LayerContributions [''w'' \<mapsto> 5])"
  by (simp add: analyze_model_def create_parameter_mapping_spec bind_err_def top_branch
      layer_branch top_indices_single entry_at_w2 make_contributor_def total_params_def
      numel_def del: entry_at.simps)


section \<open>Properties of compute_hvp\<close>

subsection \<open>Vector arithmetic\<close>

lemma length_vadd: "length (vadd a b) = min (length a) (length b)"
  by (simp add: vadd_def)

lemma length_vscale: "length (vscale c a) = length a"
  by (simp add: vscale_def)

lemma length_vsum: "\<forall>v \<in> set vs. length v = n \<Longrightarrow> length (vsum n vs) = n"
  by (induction vs) (simp_all add: vsum_def length_vadd)

lemma vadd_zero: "length a = n \<Longrightarrow> vadd (replicate n 0) a = a"
  by (rule nth_equalityI) (simp_all add: vadd_def)

lemma vadd_assoc: "vadd (vadd a b) c = vadd a (vadd b c)"
  by (rule nth_equalityI) (auto simp: vadd_def)

lemma vscale_vadd: "vscale c (vadd a b) = vadd (vscale c a) (vscale c b)"
  by (rule nth_equalityI) (auto simp: vadd_def vscale_def distrib_left)

lemma vsum_Cons: "vsum n (v # vs) = vadd v (vsum n vs)"
  by (simp add: vsum_def)

lemma vsum_append:
  assumes "\<forall>v \<in> set ys. length v = n"
  shows "vsum n (xs @ ys) = vadd (vsum n xs) (vsum n ys)"
proof (induction xs)
  case Nil
  have "vsum n [] = replicate n 0" by (simp add: vsum_def)
  then show ?case
    using vadd_zero [OF length_vsum [OF assms]] by simp
next
  case (Cons x xs)
  then show ?case by (simp add: vsum_Cons vadd_assoc)
qed

subsection \<open>Batches\<close>

lemma batches_Nil: "batches b [] = []"
  by (subst batches.simps) simp

lemma batches_step:
  "0 < b \<Longrightarrow> xs \<noteq> [] \<Longrightarrow> batches b xs = take b xs # batches b (drop b xs)"
  by (subst batches.simps) simp

lemma concat_batches: "0 < b \<Longrightarrow> concat (batches b xs) = xs"
proof (induction b xs rule: batches.induct)
  case (1 b xs)
  show ?case
  proof (cases "xs = []")
    case True
    then show ?thesis by (simp add: batches_Nil)
  next
    case False
    with 1 have "concat (batches b (drop b xs)) = drop b xs" by simp
    with False "1.prems" show ?thesis
      by (simp add: batches_step)
  qed
qed

lemma batches_nonempty: "0 < b \<Longrightarrow> \<forall>c \<in> set (batches b xs). c \<noteq> []"
proof (induction b xs rule: batches.induct)
  case (1 b xs)
  show ?case
  proof (cases "xs = []")
    case True
    then show ?thesis by (simp add: batches_Nil)
  next
    case False
    with 1 have "\<forall>c \<in> set (batches b (drop b xs)). c \<noteq> []" by simp
    with False "1.prems" show ?thesis
      by (simp add: batches_step)
  qed
qed

lemma batches_not_Nil: "0 < b \<Longrightarrow> xs \<noteq> [] \<Longrightarrow> batches b xs \<noteq> []"
  by (simp add: batches_step)

subsection \<open>One pass and the loop\<close>

lemma dot_direction_length: "dot_direction n v = Inr w \<Longrightarrow> length w = n"
  by (auto simp: dot_direction_def split: if_splits)

lemma batch_hvp_error:
  "dot_direction (num_params obj) v = Inl e \<Longrightarrow> batch_hvp obj N batch v = Inl e"
  by (simp add: batch_hvp_def bind_err_def)

lemma batch_hvp_mean:
  assumes "mean_reduction obj" and "dot_direction (num_params obj) v = Inr w"
    and "batch \<noteq> []"
  shows "batch_hvp obj N batch v =
           Inr (vscale (1 / real N) (vsum (num_params obj) (map (\<lambda>s. hess_vec obj [s] w) batch)))"
proof -
  let ?S = "vsum (num_params obj) (map (\<lambda>s. hess_vec obj [s] w) batch)"
  have w: "length w = num_params obj"
    using assms(2) by (rule dot_direction_length)
  have h: "hess_vec obj batch w = vscale (1 / real (length batch)) ?S"
    using assms(1,3) w unfolding mean_reduction_def by blast
  have "real (length batch) \<noteq> 0" using assms(3) by simp
  then have "map (\<lambda>h. h * real (length batch) / real N) (vscale (1 / real (length batch)) ?S)
           = vscale (1 / real N) ?S"
    by (simp add: vscale_def)
  then show ?thesis
    using assms(2) h by (simp add: batch_hvp_def bind_err_def)
qed

lemma hvp_loop_error:
  assumes "dot_direction (num_params obj) v = Inl e" and "bs \<noteq> []"
  shows "hvp_loop obj N v bs acc = Inl e"
  using assms(2) batch_hvp_error [OF assms(1)]
  by (cases bs) (simp_all add: bind_err_def)

lemma hvp_loop_mean:
  assumes "well_formed obj" and "mean_reduction obj"
    and "dot_direction (num_params obj) v = Inr w"
    and "\<forall>b \<in> set bs. b \<noteq> []" and "length acc = num_params obj"
  shows "hvp_loop obj N v bs acc =
           Inr (vadd acc (vscale (1 / real N)
                  (vsum (num_params obj) (map (\<lambda>s. hess_vec obj [s] w) (concat bs)))))"
  using assms(4,5)
proof (induction bs arbitrary: acc)
  case Nil
  have "vadd acc (replicate (num_params obj) 0) = acc"
    using Nil.prems(2) by (intro nth_equalityI) (simp_all add: vadd_def)
  then show ?case
    by (simp add: vsum_def vscale_def)
next
  case (Cons b bs)
  let ?n = "num_params obj"
  let ?h = "\<lambda>s. hess_vec obj [s] w"
  let ?X = "vscale (1 / real N) (vsum ?n (map ?h b))"
  have w: "length w = ?n"
    using assms(3) by (rule dot_direction_length)
  have len: "\<forall>v \<in> set (map ?h xs). length v = ?n" for xs
    using assms(1) w by (simp add: well_formed_def)
  have b: "batch_hvp obj N b v = Inr ?X"
    using Cons.prems(1) by (intro batch_hvp_mean [OF assms(2,3)]) simp
  have lx: "length ?X = ?n"
    by (simp add: length_vscale length_vsum [OF len])
  then have add: "inplace_add acc ?X = Inr (vadd acc ?X)"
    using Cons.prems(2) by (simp add: inplace_add_def vadd_def)
  have "hvp_loop obj N v (b # bs) acc = hvp_loop obj N v bs (vadd acc ?X)"
    by (simp add: b add bind_err_def)
  also have "\<dots> = Inr (vadd (vadd acc ?X) (vscale (1 / real N)
                  (vsum ?n (map ?h (concat bs)))))"
    using Cons.prems lx by (intro Cons.IH) (simp_all add: length_vadd)
  also have "vadd (vadd acc ?X) (vscale (1 / real N) (vsum ?n (map ?h (concat bs))))
           = vadd acc (vscale (1 / real N) (vsum ?n (map ?h (concat (b # bs)))))"
    using vsum_append [OF len [of "concat bs"], of "map ?h b"]
    by (simp add: vadd_assoc vscale_vadd)
  finally show ?case .
qed

lemma chunked_equals_full:
  assumes "well_formed obj" and "mean_reduction obj" and "0 < b" and "dataset \<noteq> []"
  shows "hvp_loop obj (length dataset) v (batches b dataset) (replicate (num_params obj) 0)
           = batch_hvp obj (length dataset) dataset v"
proof (cases "dot_direction (num_params obj) v")
  case (Inl e)
  then show ?thesis
    using hvp_loop_error [OF Inl batches_not_Nil [OF assms(3,4)]] batch_hvp_error [OF Inl]
    by simp
next
  case (Inr w)
  let ?n = "num_params obj"
  let ?X = "vscale (1 / real (length dataset)) (vsum ?n (map (\<lambda>s. hess_vec obj [s] w) dataset))"
  have "length w = ?n"
    using Inr by (rule dot_direction_length)
  then have "\<forall>v \<in> set (map (\<lambda>s. hess_vec obj [s] w) dataset). length v = ?n"
    using assms(1) by (simp add: well_formed_def)
  then have lx: "length ?X = ?n"
    by (simp add: length_vscale length_vsum)
  have "hvp_loop obj (length dataset) v (batches b dataset) (replicate ?n 0)
          = Inr (vadd (replicate ?n 0) ?X)"
    using hvp_loop_mean [OF assms(1,2) Inr batches_nonempty [OF assms(3)], of "replicate ?n 0"]
    by (simp add: concat_batches [OF assms(3)])
  also have "\<dots> = Inr ?X"
    using vadd_zero [OF lx] by simp
  also have "\<dots> = batch_hvp obj (length dataset) dataset v"
    using batch_hvp_mean [OF assms(2) Inr assms(4)] by simp
  finally show ?thesis .
qed

text \<open>
  C1, as amended. When the loss of a batch is the mean of the losses of its samples
  (the Hessian product of a batch is the average of those of its samples) and the chunk
  size is positive, the chunked computation returns exactly what the unchunked
  computation returns, over exact arithmetic, for the same probe, dataset,
  preconditioner and fixed parameters; this includes the cases where both fail.
\<close>

theorem compute_hvp_chunked_equals_unchunked:
  assumes "well_formed obj" and "mean_reduction obj" and "0 < chunk_size"
  shows "compute_hvp obj dataset vector (Some chunk_size) P
           = compute_hvp obj dataset vector None P"
proof (cases "chunk_size \<ge> int (length dataset)")
  case True
  then show ?thesis by (simp add: compute_hvp_def)
next
  case False
  then have ne: "dataset \<noteq> []" using assms(3) by auto
  have pos: "0 < nat chunk_size" using assms(3) by simp
  have "hvp_loop obj (length dataset) v (batches (nat chunk_size) dataset)
            (replicate (num_params obj) 0)
          = batch_hvp obj (length dataset) dataset v" for v
    by (rule chunked_equals_full [OF assms(1,2) pos ne])
  then show ?thesis
    using False ne assms(3) by (simp add: compute_hvp_def)
qed


lemma vsum_singletons: "vsum (Suc 0) (map (\<lambda>s. [s * y]) batch) = [sum_list batch * y]"
  by (induction batch) (simp_all add: vsum_def vadd_def distrib_right)

lemma mean_quadratic_well_formed: "well_formed mean_quadratic"
  by (simp add: well_formed_def mean_quadratic_def)

lemma mean_quadratic_mean: "mean_reduction mean_quadratic"
proof -
  have "map (\<lambda>y. sum_list batch / real (length batch) * y) w =
          vscale (1 / real (length batch)) (vsum 1 (map (\<lambda>s. map (\<lambda>y. sum_list [s] / real (length [s]) * y) w) batch))"
    if "length w = 1" for batch :: "real list" and w :: tensor
  proof -
    from that obtain y where w: "w = [y]"
      by (cases w) auto
    show ?thesis
      by (simp add: w vsum_singletons vscale_def)
  qed
  then show ?thesis
    by (simp add: mean_reduction_def mean_quadratic_def)
qed

theorem compute_hvp_chunked_equals_unchunked_witness:
  "compute_hvp mean_quadratic [1, 3] [2] (Some 1) None
        = compute_hvp mean_quadratic [1, 3] [2] None None
   \<and> compute_hvp mean_quadratic [1, 3] [2] None None = Inr [4]"
proof -
  have "compute_hvp mean_quadratic [1, 3] [2] None None = Inr [4]"
    by (simp add: compute_hvp_def batch_hvp_def dot_direction_def bind_err_def
        mean_quadratic_def)
  then show ?thesis
    using compute_hvp_chunked_equals_unchunked
      [OF mean_quadratic_well_formed mean_quadratic_mean, of 1 "[1, 3]" "[2]" None]
    by simp
qed

text \<open>
  C1, as stated, fails in two ways. For a loss that sums over its batch, two chunks of
  one sample give half of what the single pass gives; and a chunk size of zero makes the
  loader raise ValueError where the single pass returns a result.
\<close>

theorem compute_hvp_chunked_counterexample:
  "compute_hvp sum_quadratic [1, 1] [1] (Some 1) None = Inr [1]
   \<and> compute_hvp sum_quadratic [1, 1] [1] None None = Inr [2]
   \<and> compute_hvp mean_quadratic [1, 1] [1] (Some 0) None = Inl ValueError
   \<and> compute_hvp mean_quadratic [1, 1] [1] None None = Inr [1]"
  by (simp add: compute_hvp_def batch_hvp_def dot_direction_def bind_err_def inplace_add_def
      sum_quadratic_def mean_quadratic_def batches_step batches_Nil)

subsection \<open>The preconditioner\<close>

lemma broadcast2_error: "broadcast2 f a b = Inl e \<Longrightarrow> e = RuntimeError"
  by (auto simp: broadcast2_def split: if_splits)

lemma batch_hvp_error_kind: "batch_hvp obj N b v = Inl e \<Longrightarrow> e = RuntimeError"
  by (auto simp: batch_hvp_def bind_err_def dot_direction_def split: if_splits)

lemma batch_hvp_length:
  assumes "well_formed obj" and "batch_hvp obj N b v = Inr r"
  shows "length r = num_params obj"
proof -
  from assms(2) obtain w where w: "dot_direction (num_params obj) v = Inr w"
    and r: "r = map (\<lambda>h. h * real (length b) / real N) (hess_vec obj b w)"
    by (auto simp: batch_hvp_def bind_err_def split: sum.splits)
  from dot_direction_length [OF w] assms(1) show ?thesis
    by (simp add: r well_formed_def)
qed

lemma inplace_add_cases:
  "inplace_add a b = Inl e \<Longrightarrow> e = RuntimeError"
  "inplace_add a b = Inr r \<Longrightarrow> length r = length a"
  by (auto simp: inplace_add_def split: if_splits)

lemma hvp_loop_error_kind: "hvp_loop obj N v bs acc = Inl e \<Longrightarrow> e = RuntimeError"
proof (induction bs arbitrary: acc)
  case Nil
  then show ?case by simp
next
  case (Cons b bs)
  then show ?case
    by (auto simp: bind_err_def split: sum.splits
        dest: batch_hvp_error_kind inplace_add_cases(1))
qed

lemma hvp_loop_length: "hvp_loop obj N v bs acc = Inr r \<Longrightarrow> length r = length acc"
proof (induction bs arbitrary: acc)
  case Nil
  then show ?case by simp
next
  case (Cons b bs)
  from Cons.prems obtain x acc' where "inplace_add acc x = Inr acc'"
    and "hvp_loop obj N v bs acc' = Inr r"
    by (auto simp: bind_err_def split: sum.splits)
  then show ?case
    using Cons.IH inplace_add_cases(2) by fastforce
qed

lemma compute_hvp_error_kind:
  "compute_hvp obj dataset v c P = Inl e \<Longrightarrow> e \<in> {StopIteration, RuntimeError, ValueError}"
  by (auto simp: compute_hvp_def bind_err_def Let_def split: if_splits sum.splits option.splits
      dest: broadcast2_error batch_hvp_error_kind hvp_loop_error_kind)


lemma bind_err_Inr: "bind_err m Inr = m"
  by (cases m) (simp_all add: bind_err_def)

lemma map2_div_sqrt: "map2 (/) v (map sqrt P) = map2 (\<lambda>x p. x / sqrt p) v P"
  by (auto simp: zip_map2)

text \<open>
  C6, as amended. \<open>compute_hvp\<close> does not inspect \<open>P\<close> and never fails with
  InvalidArgument, whatever \<open>P\<close> holds. When \<open>P\<close> has one positive entry per
  parameter, the result is that of the computation without preconditioner on the probe
  divided entrywise by the square roots of \<open>P\<close>, divided entrywise by those square
  roots once more.
\<close>

theorem compute_hvp_preconditioner:
  assumes "well_formed obj"
    and "length P = num_params obj" and "length vector = num_params obj"
    and "\<forall>p \<in> set P. 0 < p"
  shows "compute_hvp obj dataset vector chunk_size (Some P) =
           (case compute_hvp obj dataset (map2 (\<lambda>x p. x / sqrt p) vector P) chunk_size None of
              Inl e \<Rightarrow> Inl e
            | Inr r \<Rightarrow> Inr (map2 (\<lambda>x p. x / sqrt p) r P))
       \<and> (\<forall>Q. compute_hvp obj dataset vector chunk_size Q \<noteq> Inl InvalidArgument)"
proof
  let ?n = "num_params obj"
  let ?v = "map2 (\<lambda>x p. x / sqrt p) vector P"
  show "compute_hvp obj dataset vector chunk_size (Some P) =
           (case compute_hvp obj dataset ?v chunk_size None of
              Inl e \<Rightarrow> Inl e
            | Inr r \<Rightarrow> Inr (map2 (\<lambda>x p. x / sqrt p) r P))"
  proof (cases "?n = 0")
    case True
    then show ?thesis by (simp add: compute_hvp_def)
  next
    case False
    define inner where "inner = (\<lambda>v.
        let whole = (if dataset = [] then Inl ValueError
                     else batch_hvp obj (length dataset) dataset v)
        in case chunk_size of
             None \<Rightarrow> whole
           | Some b \<Rightarrow>
               if b \<ge> int (length dataset) then whole
               else if b \<le> 0 then Inl ValueError
               else hvp_loop obj (length dataset) v (batches (nat b) dataset) (replicate ?n 0))"
    have pre: "broadcast2 (/) vector (map sqrt P) = Inr ?v"
      using assms(2,3) by (simp add: broadcast2_def map2_div_sqrt)
    have plain: "compute_hvp obj dataset ?v chunk_size None = inner ?v"
      using False by (simp add: compute_hvp_def inner_def bind_err_def split: sum.splits)
    have scaled: "compute_hvp obj dataset vector chunk_size (Some P) =
                    bind_err (inner ?v) (\<lambda>flat_hvp. broadcast2 (/) flat_hvp (map sqrt P))"
      using False by (simp add: compute_hvp_def inner_def pre bind_err_def)
    have len: "length r = ?n" if "inner ?v = Inr r" for r
      using that batch_hvp_length [OF assms(1)] hvp_loop_length
      by (fastforce simp: inner_def Let_def split: if_splits option.splits)
    show ?thesis
    proof (cases "inner ?v")
      case (Inl e)
      then show ?thesis by (simp add: plain scaled bind_err_def)
    next
      case (Inr r)
      then have "length r = length P"
        using len assms(2) by simp
      then have "broadcast2 (/) r (map sqrt P) = Inr (map2 (\<lambda>x p. x / sqrt p) r P)"
        by (simp add: broadcast2_def map2_div_sqrt)
      with Inr show ?thesis by (simp add: plain scaled bind_err_def)
    qed
  qed
next
  show "\<forall>Q. compute_hvp obj dataset vector chunk_size Q \<noteq> Inl InvalidArgument"
    using compute_hvp_error_kind [of obj dataset vector chunk_size _ InvalidArgument]
    by auto
qed

theorem compute_hvp_preconditioner_witness:
  "length [4 :: real] = num_params mean_quadratic
   \<and> length [6 :: real] = num_params mean_quadratic
   \<and> compute_hvp mean_quadratic [1, 3] [6] None (Some [4]) = Inr [3]
   \<and> compute_hvp mean_quadratic [1, 3] [3] None None = Inr [6]"
proof -
  have n: "length [4 :: real] = num_params mean_quadratic"
    "length [6 :: real] = num_params mean_quadratic"
    by (simp_all add: mean_quadratic_def)
  have p: "\<forall>p \<in> set [4 :: real]. 0 < p" by simp
  have plain: "compute_hvp mean_quadratic [1, 3] [3] None None = Inr [6]"
    by (simp add: compute_hvp_def batch_hvp_def dot_direction_def bind_err_def
        mean_quadratic_def)
  from compute_hvp_preconditioner [OF mean_quadratic_well_formed n p, of "[1, 3]" None]
  have "compute_hvp mean_quadratic [1, 3] [6] None (Some [4]) = Inr [3]"
    by (simp add: plain)
  with plain n show ?thesis by simp
qed

text \<open>
  C6, as stated, fails: with a preconditioner entry that is zero, or negative, the call
  returns a tensor and raises nothing.
\<close>

theorem compute_hvp_nonpositive_counterexample:
  "\<not> isl (compute_hvp mean_quadratic [1, 3] [6] None (Some [0]))
   \<and> \<not> isl (compute_hvp mean_quadratic [1, 3] [6] None (Some [- 4]))"
  by (simp add: compute_hvp_def batch_hvp_def dot_direction_def bind_err_def broadcast2_def
      mean_quadratic_def)

end
